theory Spec2Isabelle
  imports Main "HOL-Library.Word"
begin

section \<open>The lifted IR, as far as the dead-register eliminator reads it\<close>

text \<open>
  An \<^verbatim>\<open>llvm::Value *\<close> is identified by a number (its address): instructions, the
  state-pointer argument and every other operand are values. An instruction carries
  its own identity and its kind; of each kind the model keeps what
  \<^verbatim>\<open>DeadRegElimination.cpp\<close> inspects, and the operands that
  \<^verbatim>\<open>replaceAllUsesWith\<close> can rewrite.

  \<^item> \<open>GetElementPtr base acc\<close>: the pointer operand, and the outcome of LLVM's
    \<^verbatim>\<open>accumulateConstantOffset\<close> on the index list (\<open>None\<close> when the indices are
    not all constant, else the 64-bit displacement).
  \<^item> \<open>BitCast base\<close>: operand 0.
  \<^item> \<open>Load ptr ty\<close>: the pointer operand and the type of the loaded value.
  \<^item> \<open>Store v ty ptr\<close>: operand 0 (the stored value), its type, the pointer operand.
  \<^item> \<open>PHI is_ptr incoming\<close>: whether the node's type is a pointer type, and the
    incoming values in order.
  \<^item> \<open>Call ops\<close>: a \<^verbatim>\<open>CallInst\<close> with its operands.
  \<^item> \<open>Other ops\<close>: every other instruction.

  Types (\<^verbatim>\<open>llvm::Type *\<close>, compared by identity) are a type parameter \<open>'ty\<close>.
\<close>

type_synonym value_id = nat

datatype 'ty inst_kind =
    GetElementPtr value_id "64 word option"
  | BitCast value_id
  | Load value_id 'ty
  | Store value_id 'ty value_id
  | PHI bool "value_id list"
  | Call "value_id list"
  | Other "value_id list"

datatype 'ty inst = Inst (iid: value_id) (kind: "'ty inst_kind")

datatype 'ty basic_block = BasicBlock (block_id: nat) (insts: "'ty inst list")

record 'ty llvm_function =
  state_ptr :: value_id
  blocks :: "'ty basic_block list"

definition instructions :: "'ty llvm_function \<Rightarrow> 'ty inst list" where
  "instructions f = concat (map insts (blocks f))"

section \<open>The pointer offset propagator\<close>

type_synonym OffsetMap = "value_id \<Rightarrow> 32 word option"

text \<open>
  \<^verbatim>\<open>GetOffsetFromBasePtr\<close>: the zero-extended accumulated offset and the
  \<^verbatim>\<open>failed\<close> flag. On failure the caller ignores the returned number; the model
  returns the initial \<^verbatim>\<open>APInt(64, 0)\<close>.
\<close>

definition GetOffsetFromBasePtr :: "64 word option \<Rightarrow> 64 word \<times> bool" where
  "GetOffsetFromBasePtr acc =
     (case acc of None \<Rightarrow> (0, True) | Some off \<Rightarrow> (off, False))"

text \<open>The loop over a PHI node's incoming values, with its \<^verbatim>\<open>break\<close>.\<close>

fun first_known :: "OffsetMap \<Rightarrow> value_id list \<Rightarrow> 32 word option" where
  "first_known offset [] = None"
| "first_known offset (p # ps) =
     (case offset p of Some b \<Rightarrow> Some b | None \<Rightarrow> first_known offset ps)"

text \<open>
  The body of the inner loop of \<^verbatim>\<open>GetOffsets\<close>, on the pair of the map and the
  \<^verbatim>\<open>made_progress\<close> flag. The sum of a GEP is computed in \<^verbatim>\<open>size_t\<close>
  (64 bits) and stored into the map's \<^verbatim>\<open>unsigned\<close> (32 bits).
\<close>

fun GetOffsets_inst :: "'ty inst \<Rightarrow> OffsetMap \<times> bool \<Rightarrow> OffsetMap \<times> bool" where
  "GetOffsets_inst (Inst i k) (offset, made_progress) =
     (if offset i \<noteq> None then (offset, made_progress)
      else case k of
        GetElementPtr base acc \<Rightarrow>
          (case offset base of
             None \<Rightarrow> (offset, made_progress)
           | Some base_off \<Rightarrow>
               (case GetOffsetFromBasePtr acc of
                  (gep_offset, failed) \<Rightarrow>
                    if \<not> failed
                    then (offset(i \<mapsto> ucast (gep_offset + ucast base_off)), True)
                    else (offset, made_progress)))
      | BitCast base \<Rightarrow>
          (case offset base of
             Some b \<Rightarrow> (offset(i \<mapsto> b), True)
           | None \<Rightarrow> (offset, made_progress))
      | Load ptr ty \<Rightarrow>
          (case offset ptr of
             Some b \<Rightarrow> (offset(i \<mapsto> b), True)
           | None \<Rightarrow> (offset, made_progress))
      | Store v ty ptr \<Rightarrow>
          (case offset ptr of
             Some b \<Rightarrow> (offset(i \<mapsto> b), True)
           | None \<Rightarrow> (offset, made_progress))
      | PHI is_ptr incoming \<Rightarrow>
          (if \<not> is_ptr then (offset, made_progress)
           else case first_known offset incoming of
             Some b \<Rightarrow> (offset(i \<mapsto> b), True)
           | None \<Rightarrow> (offset, made_progress))
      | Call ops \<Rightarrow> (offset, made_progress)
      | Other ops \<Rightarrow> (offset, made_progress))"

text \<open>One full pass: \<^verbatim>\<open>made_progress = false\<close>, then every instruction of every
  block in program order.\<close>

definition GetOffsets_pass :: "'ty llvm_function \<Rightarrow> OffsetMap \<Rightarrow> OffsetMap \<times> bool" where
  "GetOffsets_pass f offset = fold GetOffsets_inst (instructions f) (offset, False)"

text \<open>
  The repeat-until-no-progress loop. Beside the map it returns the number of passes
  it ran (a ghost counter, which the source does not keep).
\<close>

function GetOffsets_loop :: "'ty llvm_function \<Rightarrow> OffsetMap \<Rightarrow> nat \<Rightarrow> OffsetMap \<times> nat" where
  "GetOffsets_loop f offset n =
     (case GetOffsets_pass f offset of
        (offset', made_progress) \<Rightarrow>
          if made_progress then GetOffsets_loop f offset' (Suc n) else (offset', Suc n))"
  by pat_completeness auto

lemma GetOffsets_inst_mono:
  "offset v = Some b \<Longrightarrow> fst (GetOffsets_inst i (offset, mp)) v = Some b"
  by (cases i) (auto split: inst_kind.splits option.splits prod.splits)

lemma GetOffsets_fold_mono:
  "fst s v = Some b \<Longrightarrow> fst (fold GetOffsets_inst xs s) v = Some b"
proof (induction xs arbitrary: s)
  case Nil
  then show ?case by simp
next
  case (Cons x xs)
  obtain m p where s: "s = (m, p)" by (cases s)
  have "fst (GetOffsets_inst x s) v = Some b"
    using Cons.prems GetOffsets_inst_mono [of m v b x p] by (simp add: s)
  then show ?case using Cons.IH by simp
qed

lemma GetOffsets_inst_progress:
  "snd (GetOffsets_inst i (offset, mp)) \<Longrightarrow>
   mp \<or> (offset (iid i) = None \<and> fst (GetOffsets_inst i (offset, mp)) (iid i) \<noteq> None)"
  by (cases i) (auto split: inst_kind.splits option.splits prod.splits if_splits)

lemma GetOffsets_fold_progress:
  "snd (fold GetOffsets_inst xs s) \<Longrightarrow>
   snd s \<or> (\<exists>i \<in> set xs. fst s (iid i) = None \<and> fst (fold GetOffsets_inst xs s) (iid i) \<noteq> None)"
proof (induction xs arbitrary: s)
  case Nil
  then show ?case by simp
next
  case (Cons x xs)
  obtain m p where s: "s = (m, p)" by (cases s)
  let ?s' = "GetOffsets_inst x s"
  from Cons.prems have "snd (fold GetOffsets_inst xs ?s')" by simp
  from Cons.IH [OF this] consider
    (flag) "snd ?s'"
    | (later) i where "i \<in> set xs" "fst ?s' (iid i) = None"
        "fst (fold GetOffsets_inst xs ?s') (iid i) \<noteq> None"
    by blast
  then show ?case
  proof cases
    case flag
    then have "p \<or> (m (iid x) = None \<and> fst ?s' (iid x) \<noteq> None)"
      using GetOffsets_inst_progress [of x m p] by (simp add: s)
    then show ?thesis
    proof
      assume p then show ?thesis by (simp add: s)
    next
      assume a: "m (iid x) = None \<and> fst ?s' (iid x) \<noteq> None"
      then obtain b where "fst ?s' (iid x) = Some b" by blast
      then have "fst (fold GetOffsets_inst xs ?s') (iid x) = Some b"
        by (rule GetOffsets_fold_mono)
      with a show ?thesis by (auto simp: s)
    qed
  next
    case later
    have "fst s (iid i) = None"
    proof (rule ccontr)
      assume "fst s (iid i) \<noteq> None"
      then obtain b where "m (iid i) = Some b" by (auto simp: s)
      then have "fst ?s' (iid i) = Some b"
        using GetOffsets_inst_mono [of m "iid i" b x p] by (simp add: s)
      with later(2) show False by simp
    qed
    with later show ?thesis by auto
  qed
qed

definition unmapped :: "'ty llvm_function \<Rightarrow> OffsetMap \<Rightarrow> value_id set" where
  "unmapped f offset = iid ` set (instructions f) - dom offset"

lemma pass_mono:
  "GetOffsets_pass f offset = (offset', mp) \<Longrightarrow> offset v = Some b \<Longrightarrow> offset' v = Some b"
  using GetOffsets_fold_mono [of "(offset, False)" v b "instructions f"]
  by (simp add: GetOffsets_pass_def)

lemma pass_progress_unmapped:
  assumes "GetOffsets_pass f offset = (offset', True)"
  shows "unmapped f offset' \<subset> unmapped f offset"
proof -
  have "snd (fold GetOffsets_inst (instructions f) (offset, False))"
    using assms by (simp add: GetOffsets_pass_def)
  from GetOffsets_fold_progress [OF this] obtain i where
    i: "i \<in> set (instructions f)" "offset (iid i) = None" "offset' (iid i) \<noteq> None"
    using assms by (auto simp: GetOffsets_pass_def)
  have "dom offset \<subseteq> dom offset'"
    using pass_mono [OF assms] by auto
  then have "unmapped f offset' \<subseteq> unmapped f offset"
    by (auto simp: unmapped_def)
  moreover have "iid i \<in> unmapped f offset" "iid i \<notin> unmapped f offset'"
    using i by (auto simp: unmapped_def)
  ultimately show ?thesis by blast
qed

lemma finite_unmapped: "finite (unmapped f offset)"
  by (simp add: unmapped_def)

lemma pass_progress_card:
  "(offset', True) = GetOffsets_pass f offset \<Longrightarrow>
   card (unmapped f offset') < card (unmapped f offset)"
  by (intro psubset_card_mono finite_unmapped pass_progress_unmapped) simp

termination GetOffsets_loop
  by (relation "measure (\<lambda>(f, offset, n). card (unmapped f offset))")
     (auto dest: pass_progress_card)

declare GetOffsets_loop.simps [simp del]

text \<open>\<^verbatim>\<open>GetOffsets\<close>: the map starts with the state pointer at offset 0.\<close>

definition GetOffsets :: "'ty llvm_function \<Rightarrow> OffsetMap" where
  "GetOffsets f = fst (GetOffsets_loop f (Map.empty(state_ptr f \<mapsto> 0)) 0)"


section \<open>The register layout tables\<close>

text \<open>
  The three global vectors indexed by byte offset into the register state structure.
  \<^verbatim>\<open>InitDeadRegisterEliminator\<close> appends to them: for every field of the structure, in
  order, \<open>store_size\<close> entries. \<^verbatim>\<open>reg_offset\<close> and \<^verbatim>\<open>total_size\<close> are
  \<^verbatim>\<open>unsigned\<close> (they wrap at \<open>2 ^ 32\<close>), and the 64-bit store size is narrowed to
  \<^verbatim>\<open>unsigned\<close> when pushed onto \<^verbatim>\<open>gByteOffsetToRegSize\<close>. The data layout's
  \<^verbatim>\<open>getTypeStoreSize\<close> is a parameter.
\<close>

record layout_tables =
  gByteOffsetToRegOffset :: "nat list"
  gByteOffsetToBeginOffset :: "nat list"
  gByteOffsetToRegSize :: "nat list"

definition no_tables :: layout_tables where
  "no_tables = \<lparr>gByteOffsetToRegOffset = [], gByteOffsetToBeginOffset = [],
                 gByteOffsetToRegSize = []\<rparr>"

fun init_fields :: "nat list \<Rightarrow> nat \<Rightarrow> nat \<Rightarrow> layout_tables \<Rightarrow> layout_tables" where
  "init_fields [] reg_offset total_size L = L"
| "init_fields (store_size # rest) reg_offset total_size L =
     init_fields rest ((reg_offset + 1) mod 2 ^ 32) ((total_size + store_size) mod 2 ^ 32)
       (L\<lparr>gByteOffsetToRegOffset :=
              gByteOffsetToRegOffset L @ replicate store_size reg_offset,
           gByteOffsetToRegSize :=
              gByteOffsetToRegSize L @ replicate store_size (store_size mod 2 ^ 32),
           gByteOffsetToBeginOffset :=
              gByteOffsetToBeginOffset L @ replicate store_size total_size\<rparr>)"

definition InitDeadRegisterEliminator ::
  "('ty \<Rightarrow> nat) \<Rightarrow> 'ty list \<Rightarrow> layout_tables \<Rightarrow> layout_tables" where
  "InitDeadRegisterEliminator getTypeStoreSize elements L =
     init_fields (map getTypeStoreSize elements) 0 0 L"

section \<open>The block-local eliminator\<close>

text \<open>
  \<^verbatim>\<open>RegSet\<close> is \<^verbatim>\<open>std::bitset<128>\<close>, modelled as the set of the positions that are
  set. Its \<^verbatim>\<open>set\<close>, \<^verbatim>\<open>reset\<close> and \<^verbatim>\<open>test\<close> throw \<^verbatim>\<open>std::out_of_range\<close> for a
  position of 128 or more, and \<^verbatim>\<open>operator[]\<close> of a vector past its end is undefined
  behaviour. The source checks neither; the model stops with a fault at both.
\<close>

datatype fault = VectorIndexOutOfRange | BitsetPositionOutOfRange

definition RegSet_bits :: nat where
  "RegSet_bits = 128"

record BlockState =
  live_on_entry :: "nat set"
  killed_in_block :: "nat set"

text \<open>
  The locals of \<^verbatim>\<open>LocalOptimizeBlock\<close> during its reverse scan: the block state, then
  \<^verbatim>\<open>local_dead\<close>, \<^verbatim>\<open>load_forwarding\<close> (a pending \<^verbatim>\<open>LoadInst *\<close> is kept as the
  load's identity and its type; a null or missing entry is \<open>None\<close>),
  \<^verbatim>\<open>to_remove\<close>, and the blocks of the function, which
  \<^verbatim>\<open>replaceAllUsesWith\<close> mutates while the scan runs.
\<close>

record 'ty scan_state = BlockState +
  local_dead :: "nat set"
  load_forwarding :: "nat \<Rightarrow> (value_id \<times> 'ty) option"
  to_remove :: "value_id set"
  cur :: "'ty basic_block list"

text \<open>\<^verbatim>\<open>old->replaceAllUsesWith(new)\<close>: every operand that is \<open>old\<close> becomes
  \<open>new\<close>, in every instruction of the function. (The index operands of a GEP are
  not represented; \<open>acc\<close> records what \<^verbatim>\<open>GetOffsets\<close> saw.)\<close>

definition replace_use :: "value_id \<Rightarrow> value_id \<Rightarrow> value_id \<Rightarrow> value_id" where
  "replace_use old new v = (if v = old then new else v)"

fun RAUW_kind :: "value_id \<Rightarrow> value_id \<Rightarrow> 'ty inst_kind \<Rightarrow> 'ty inst_kind" where
  "RAUW_kind old new (GetElementPtr base acc) = GetElementPtr (replace_use old new base) acc"
| "RAUW_kind old new (BitCast base) = BitCast (replace_use old new base)"
| "RAUW_kind old new (Load ptr ty) = Load (replace_use old new ptr) ty"
| "RAUW_kind old new (Store v ty ptr) =
     Store (replace_use old new v) ty (replace_use old new ptr)"
| "RAUW_kind old new (PHI is_ptr incoming) = PHI is_ptr (map (replace_use old new) incoming)"
| "RAUW_kind old new (Call ops) = Call (map (replace_use old new) ops)"
| "RAUW_kind old new (Other ops) = Other (map (replace_use old new) ops)"

definition RAUW_inst :: "value_id \<Rightarrow> value_id \<Rightarrow> 'ty inst \<Rightarrow> 'ty inst" where
  "RAUW_inst old new i = Inst (iid i) (RAUW_kind old new (kind i))"

definition RAUW_block :: "value_id \<Rightarrow> value_id \<Rightarrow> 'ty basic_block \<Rightarrow> 'ty basic_block" where
  "RAUW_block old new bb = BasicBlock (block_id bb) (map (RAUW_inst old new) (insts bb))"

definition replaceAllUsesWith ::
  "value_id \<Rightarrow> value_id \<Rightarrow> 'ty basic_block list \<Rightarrow> 'ty basic_block list" where
  "replaceAllUsesWith old new bbs = map (RAUW_block old new) bbs"

text \<open>The two forwarding branches share their effect: the pending load's uses are
  replaced and the pending load is marked for removal.\<close>

definition forward :: "value_id \<Rightarrow> value_id \<Rightarrow> 'ty scan_state \<Rightarrow> 'ty scan_state" where
  "forward next_load new s =
     s\<lparr>to_remove := insert next_load (to_remove s),
       cur := replaceAllUsesWith next_load new (cur s)\<rparr>"

definition is_call :: "'ty inst_kind \<Rightarrow> bool" where
  "is_call k = (case k of Call ops \<Rightarrow> True | _ \<Rightarrow> False)"

definition call_reset :: "'ty scan_state \<Rightarrow> 'ty scan_state" where
  "call_reset s = s\<lparr>live_on_entry := {}, killed_in_block := {}, local_dead := {},
                    load_forwarding := (\<lambda>r. None)\<rparr>"

text \<open>
  One iteration of the reverse loop, on the instruction the iterator points at.
  Both table reads happen for every mapped instruction, before its kind is looked at.
  In the load branch the first bitset operation (\<^verbatim>\<open>live_on_entry.set\<close>) comes after
  the forwarding, in the store branch \<^verbatim>\<open>local_dead.test\<close> comes first; either way a
  register number of 128 or more ends the iteration with the exception.
\<close>

fun visit ::
  "layout_tables \<Rightarrow> ('ty \<Rightarrow> nat) \<Rightarrow> OffsetMap \<Rightarrow> 'ty inst \<Rightarrow> 'ty scan_state
   \<Rightarrow> fault + 'ty scan_state" where
  "visit L getTypeStoreSize m (Inst i k) s0 =
     (let s = (if is_call k then call_reset s0 else s0) in
      case m i of
        None \<Rightarrow> Inr s
      | Some offset \<Rightarrow>
          if \<not> unat offset < length (gByteOffsetToRegOffset L) then Inl VectorIndexOutOfRange
          else if \<not> unat offset < length (gByteOffsetToRegSize L) then Inl VectorIndexOutOfRange
          else
            let reg_num = gByteOffsetToRegOffset L ! unat offset;
                reg_size = gByteOffsetToRegSize L ! unat offset
            in case k of
              Load ptr ty \<Rightarrow>
                (let s1 = (case load_forwarding s reg_num of
                             Some (next_load, next_ty) \<Rightarrow>
                               if next_ty = ty then forward next_load i s else s
                           | None \<Rightarrow> s)
                 in if \<not> reg_num < RegSet_bits then Inl BitsetPositionOutOfRange
                    else Inr (s1\<lparr>live_on_entry := insert reg_num (live_on_entry s1),
                                 local_dead := local_dead s1 - {reg_num},
                                 load_forwarding := (load_forwarding s1)(reg_num \<mapsto> (i, ty))\<rparr>))
            | Store stored_val stored_val_type ptr \<Rightarrow>
                if \<not> reg_num < RegSet_bits then Inl BitsetPositionOutOfRange
                else if reg_num \<in> local_dead s then
                  Inr (s\<lparr>to_remove := insert i (to_remove s),
                         load_forwarding := (load_forwarding s)(reg_num := None)\<rparr>)
                else if getTypeStoreSize stored_val_type \<noteq> reg_size then
                  Inr (s\<lparr>live_on_entry := insert reg_num (live_on_entry s),
                         local_dead := local_dead s - {reg_num},
                         load_forwarding := (load_forwarding s)(reg_num := None)\<rparr>)
                else
                  (let s1 = s\<lparr>live_on_entry := live_on_entry s - {reg_num},
                               killed_in_block := insert reg_num (killed_in_block s),
                               local_dead := insert reg_num (local_dead s)\<rparr>;
                       s2 = (case load_forwarding s1 reg_num of
                               Some (next_load, next_ty) \<Rightarrow>
                                 if next_ty = stored_val_type
                                 then forward next_load stored_val s1 else s1
                             | None \<Rightarrow> s1)
                   in Inr (s2\<lparr>load_forwarding := (load_forwarding s2)(reg_num := None)\<rparr>))
            | _ \<Rightarrow> Inr s)"

text \<open>
  The state after the first \<open>k\<close> iterations of the reverse loop over block \<open>b\<close>: the
  iteration numbered \<open>k\<close> (from 0) visits the instruction at position
  \<open>length - 1 - k\<close> of the block as it stands then.
\<close>

fun scan ::
  "layout_tables \<Rightarrow> ('ty \<Rightarrow> nat) \<Rightarrow> OffsetMap \<Rightarrow> nat \<Rightarrow> nat \<Rightarrow> 'ty scan_state
   \<Rightarrow> fault + 'ty scan_state" where
  "scan L getTypeStoreSize m b 0 s = Inr s"
| "scan L getTypeStoreSize m b (Suc k) s =
     (case scan L getTypeStoreSize m b k s of
        Inl e \<Rightarrow> Inl e
      | Inr s' \<Rightarrow>
          visit L getTypeStoreSize m
            (insts (cur s' ! b) ! (length (insts (cur s' ! b)) - Suc k)) s')"

definition scan_init :: "'ty basic_block list \<Rightarrow> 'ty scan_state" where
  "scan_init bbs = \<lparr>live_on_entry = {}, killed_in_block = {}, local_dead = {},
                    load_forwarding = (\<lambda>r. None), to_remove = {}, cur = bbs\<rparr>"

definition eraseFromParent :: "value_id set \<Rightarrow> 'ty basic_block \<Rightarrow> 'ty basic_block" where
  "eraseFromParent dead bb =
     BasicBlock (block_id bb) (filter (\<lambda>i. iid i \<notin> dead) (insts bb))"

text \<open>
  \<^verbatim>\<open>LocalOptimizeBlock\<close> on block number \<open>b\<close> of the function: the scan, the erasure
  of the marked instructions, and the write of the block's state into the global
  \<^verbatim>\<open>gBlockState\<close>, keyed by the block's identity.
\<close>

type_synonym 'ty globals = "'ty llvm_function \<times> (nat \<Rightarrow> BlockState option)"

definition LocalOptimizeBlock ::
  "layout_tables \<Rightarrow> ('ty \<Rightarrow> nat) \<Rightarrow> OffsetMap \<Rightarrow> nat \<Rightarrow> 'ty globals \<Rightarrow> fault + 'ty globals" where
  "LocalOptimizeBlock L getTypeStoreSize m b fg =
     (case fg of (f, gBlockState) \<Rightarrow>
        case scan L getTypeStoreSize m b (length (insts (blocks f ! b))) (scan_init (blocks f)) of
          Inl e \<Rightarrow> Inl e
        | Inr s \<Rightarrow>
            Inr (f\<lparr>blocks := (cur s)[b := eraseFromParent (to_remove s) (cur s ! b)]\<rparr>,
                 gBlockState(block_id (cur s ! b) \<mapsto> BlockState.truncate s)))"

section \<open>The pass driver\<close>

text \<open>
  \<^verbatim>\<open>OptimizeFunction\<close>. The legacy function pass manager with its six passes is an
  external collaborator, a parameter here: the source fills it first, computes the
  offsets, optimizes every block, and only then calls the manager's \<^verbatim>\<open>run\<close>.
\<close>

fun optimize_blocks ::
  "layout_tables \<Rightarrow> ('ty \<Rightarrow> nat) \<Rightarrow> OffsetMap \<Rightarrow> nat list \<Rightarrow> 'ty globals \<Rightarrow> fault + 'ty globals" where
  "optimize_blocks L getTypeStoreSize offsets [] fg = Inr fg"
| "optimize_blocks L getTypeStoreSize offsets (b # bs) fg =
     (case LocalOptimizeBlock L getTypeStoreSize offsets b fg of
        Inl e \<Rightarrow> Inl e
      | Inr fg' \<Rightarrow> optimize_blocks L getTypeStoreSize offsets bs fg')"

definition OptimizeFunction ::
  "('ty llvm_function \<Rightarrow> 'ty llvm_function) \<Rightarrow> layout_tables \<Rightarrow> ('ty \<Rightarrow> nat) \<Rightarrow> 'ty globals
   \<Rightarrow> fault + 'ty globals" where
  "OptimizeFunction func_pass_manager L getTypeStoreSize fg =
     (let offsets = GetOffsets (fst fg) in
      case optimize_blocks L getTypeStoreSize offsets [0 ..< length (blocks (fst fg))] fg of
        Inl e \<Rightarrow> Inl e
      | Inr (f', gBlockState') \<Rightarrow> Inr (func_pass_manager f', gBlockState'))"

section \<open>Reference notions the properties are stated against\<close>

text \<open>
  These definitions are not part of the program. The first is a reference semantics
  of what a block does to the register state: the state structure is an array of
  bytes, a load through a pointer with a known offset reads the bytes of its type's
  store size there, a store through such a pointer writes the bytes of its value
  operand there, and every other instruction leaves the bytes alone. It is what
  soundness of forwarding is measured against.
\<close>

type_synonym reg_state = "nat \<Rightarrow> 8 word"
type_synonym ssa_values = "value_id \<Rightarrow> 8 word list option"

fun write_bytes :: "reg_state \<Rightarrow> nat \<Rightarrow> 8 word list \<Rightarrow> reg_state" where
  "write_bytes mem a [] = mem"
| "write_bytes mem a (x # xs) = write_bytes (mem(a := x)) (Suc a) xs"

fun run_inst ::
  "('ty \<Rightarrow> nat) \<Rightarrow> OffsetMap \<Rightarrow> 'ty inst \<Rightarrow> reg_state \<times> ssa_values \<Rightarrow> reg_state \<times> ssa_values" where
  "run_inst getTypeStoreSize m (Inst i k) (mem, env) =
     (case k of
        Load ptr ty \<Rightarrow>
          (case m ptr of
             Some off \<Rightarrow> (mem, env(i \<mapsto> map mem [unat off ..< unat off + getTypeStoreSize ty]))
           | None \<Rightarrow> (mem, env))
      | Store v ty ptr \<Rightarrow>
          (case m ptr of
             Some off \<Rightarrow>
               (case env v of
                  Some bytes \<Rightarrow> (write_bytes mem (unat off) bytes, env)
                | None \<Rightarrow> (mem, env))
           | None \<Rightarrow> (mem, env))
      | _ \<Rightarrow> (mem, env))"

definition run_block ::
  "('ty \<Rightarrow> nat) \<Rightarrow> OffsetMap \<Rightarrow> 'ty basic_block \<Rightarrow> reg_state \<times> ssa_values \<Rightarrow> reg_state \<times> ssa_values" where
  "run_block getTypeStoreSize m bb st = fold (run_inst getTypeStoreSize m) (insts bb) st"

text \<open>
  The driver in the order the specification words it: the generic pipeline first,
  then the offsets of the function the pipeline returned, then the eliminator on
  every block of that function.
\<close>

definition OptimizeFunction_pipeline_first ::
  "('ty llvm_function \<Rightarrow> 'ty llvm_function) \<Rightarrow> layout_tables \<Rightarrow> ('ty \<Rightarrow> nat) \<Rightarrow> 'ty globals
   \<Rightarrow> fault + 'ty globals" where
  "OptimizeFunction_pipeline_first func_pass_manager L getTypeStoreSize fg =
     (let f1 = func_pass_manager (fst fg);
          offsets = GetOffsets f1
      in optimize_blocks L getTypeStoreSize offsets [0 ..< length (blocks f1)] (f1, snd fg))"

text \<open>
  A stand-in for the dead-code elimination of the generic pipeline: it deletes the
  loads whose result no instruction of the function uses.
\<close>

fun operands :: "'ty inst_kind \<Rightarrow> value_id list" where
  "operands (GetElementPtr base acc) = [base]"
| "operands (BitCast base) = [base]"
| "operands (Load ptr ty) = [ptr]"
| "operands (Store v ty ptr) = [v, ptr]"
| "operands (PHI is_ptr incoming) = incoming"
| "operands (Call ops) = ops"
| "operands (Other ops) = ops"

definition is_load :: "'ty inst_kind \<Rightarrow> bool" where
  "is_load k = (case k of Load ptr ty \<Rightarrow> True | _ \<Rightarrow> False)"

definition remove_unused_loads :: "'ty llvm_function \<Rightarrow> 'ty llvm_function" where
  "remove_unused_loads f =
     f\<lparr>blocks := map (\<lambda>bb. BasicBlock (block_id bb)
          (filter (\<lambda>i. \<not> (is_load (kind i) \<and>
                            iid i \<notin> set (concat (map (\<lambda>j. operands (kind j)) (instructions f)))))
             (insts bb))) (blocks f)\<rparr>"

section \<open>Concrete inputs\<close>

text \<open>
  A small type universe and the store sizes a 64-bit data layout gives it, for the
  concrete functions below. The eliminator itself takes the store size function as
  a parameter.
\<close>

datatype llvm_type = IntegerTy nat | FloatTy | DoubleTy | PointerTy

fun store_size_of :: "llvm_type \<Rightarrow> nat" where
  "store_size_of (IntegerTy bits) = (bits + 7) div 8"
| "store_size_of FloatTy = 4"
| "store_size_of DoubleTy = 8"
| "store_size_of PointerTy = 8"

text \<open>A register state of two fields: a 64-bit register (number 0, bytes 0 to 7)
  and an 8-bit register (number 1, byte 8).\<close>

definition regs2 :: layout_tables where
  "regs2 = InitDeadRegisterEliminator store_size_of [IntegerTy 64, IntegerTy 8] no_tables"

text \<open>One block with a load through the state pointer and a return, and the same
  block without the load.\<close>

definition load_and_return :: "llvm_type llvm_function" where
  "load_and_return = \<lparr>state_ptr = 0, blocks = [BasicBlock 0
     [Inst 1 (Load 0 (IntegerTy 64)),
      Inst 2 (Other [])]]\<rparr>"

definition return_only :: "llvm_type llvm_function" where
  "return_only = \<lparr>state_ptr = 0, blocks = [BasicBlock 0 [Inst 2 (Other [])]]\<rparr>"

text \<open>A GEP with constant indices, a GEP with a variable index, and accesses
  through both.\<close>

definition gep_function :: "llvm_type llvm_function" where
  "gep_function = \<lparr>state_ptr = 0, blocks = [BasicBlock 0
     [Inst 1 (GetElementPtr 0 (Some 8)),
      Inst 2 (BitCast 1),
      Inst 3 (Load 2 (IntegerTy 8)),
      Inst 4 (GetElementPtr 0 None),
      Inst 5 (Store 3 (IntegerTy 8) 4)]]\<rparr>"

text \<open>Two loads of one byte each from bytes 0 and 1 of register 0, and a store of
  the second loaded byte into register 1.\<close>

definition subreg_block :: "llvm_type llvm_function" where
  "subreg_block = \<lparr>state_ptr = 0, blocks = [BasicBlock 0
     [Inst 1 (BitCast 0),
      Inst 2 (GetElementPtr 1 (Some 1)),
      Inst 3 (GetElementPtr 1 (Some 8)),
      Inst 4 (Load 1 (IntegerTy 8)),
      Inst 5 (Load 2 (IntegerTy 8)),
      Inst 6 (Store 5 (IntegerTy 8) 3)]]\<rparr>"

text \<open>A load of register 0, a call, and a second load of register 0.\<close>

definition load_call_load :: "llvm_type llvm_function" where
  "load_call_load = \<lparr>state_ptr = 0, blocks = [BasicBlock 0
     [Inst 1 (Load 0 (IntegerTy 64)),
      Inst 2 (Call [1]),
      Inst 3 (Load 0 (IntegerTy 64))]]\<rparr>"

text \<open>A full store to register 0, a call, and a load of register 0.\<close>

definition store_call_load :: "llvm_type llvm_function" where
  "store_call_load = \<lparr>state_ptr = 0, blocks = [BasicBlock 0
     [Inst 1 (Store 9 (IntegerTy 64) 0),
      Inst 2 (Call []),
      Inst 3 (Load 0 (IntegerTy 64))]]\<rparr>"

text \<open>A store of one byte into the 8-byte register 0, then a store of all of it.\<close>

definition partial_then_full :: "llvm_type llvm_function" where
  "partial_then_full = \<lparr>state_ptr = 0, blocks = [BasicBlock 0
     [Inst 1 (Store 8 (IntegerTy 8) 0),
      Inst 2 (Store 9 (IntegerTy 64) 0)]]\<rparr>"

text \<open>Two loads of register 0 of the same type, and an instruction that uses both.\<close>

definition two_loads :: "llvm_type llvm_function" where
  "two_loads = \<lparr>state_ptr = 0, blocks = [BasicBlock 0
     [Inst 1 (Load 0 (IntegerTy 64)),
      Inst 2 (Load 0 (IntegerTy 64)),
      Inst 3 (Other [1, 2])]]\<rparr>"

text \<open>A register state of 129 one-byte registers, numbered 0 to 128.\<close>

definition many_regs :: layout_tables where
  "many_regs = InitDeadRegisterEliminator store_size_of (replicate 129 (IntegerTy 8)) no_tables"

text \<open>A load from byte 9 of the state, one past the end of \<open>regs2\<close>.\<close>

definition past_the_end :: "llvm_type llvm_function" where
  "past_the_end = \<lparr>state_ptr = 0, blocks = [BasicBlock 0
     [Inst 1 (GetElementPtr 0 (Some 9)),
      Inst 2 (Load 1 (IntegerTy 8))]]\<rparr>"

text \<open>A load from byte 128 of the state, register 128 of \<open>many_regs\<close>.\<close>

definition register_128 :: "llvm_type llvm_function" where
  "register_128 = \<lparr>state_ptr = 0, blocks = [BasicBlock 0
     [Inst 1 (GetElementPtr 0 (Some 128)),
      Inst 2 (Load 1 (IntegerTy 8))]]\<rparr>"

text \<open>
  Two loads of one byte each from bytes 0 and 1 of register 0, a store of the second
  loaded byte into register 1, and a return of the first loaded byte; the same block
  with the second load replaced by the first; and a register state whose bytes 0 and
  1 differ.
\<close>

definition byte_copy :: "llvm_type llvm_function" where
  "byte_copy = \<lparr>state_ptr = 0, blocks = [BasicBlock 0
     [Inst 1 (BitCast 0),
      Inst 2 (GetElementPtr 1 (Some 1)),
      Inst 3 (GetElementPtr 1 (Some 8)),
      Inst 4 (Load 1 (IntegerTy 8)),
      Inst 5 (Load 2 (IntegerTy 8)),
      Inst 6 (Store 5 (IntegerTy 8) 3),
      Inst 7 (Other [4])]]\<rparr>"

definition byte_copy_optimized :: "llvm_type llvm_function" where
  "byte_copy_optimized = \<lparr>state_ptr = 0, blocks = [BasicBlock 0
     [Inst 1 (BitCast 0),
      Inst 2 (GetElementPtr 1 (Some 1)),
      Inst 3 (GetElementPtr 1 (Some 8)),
      Inst 4 (Load 1 (IntegerTy 8)),
      Inst 6 (Store 4 (IntegerTy 8) 3),
      Inst 7 (Other [4])]]\<rparr>"

definition two_bytes :: reg_state where
  "two_bytes = (\<lambda>a. 0)(0 := 0x11, 1 := 0x22)"

section \<open>Notions used in the proofs\<close>

text \<open>
  None of the definitions of this section is part of the program: they name what the
  properties below talk about.

  A mapped GEP is consistent with its base when its offset is the base's offset plus
  its displacement, as the propagation computes it.
\<close>

definition gep_consistent :: "OffsetMap \<Rightarrow> value_id \<Rightarrow> value_id \<Rightarrow> 64 word \<Rightarrow> bool" where
  "gep_consistent m g base d =
     (case m g of None \<Rightarrow> True
      | Some off \<Rightarrow> (case m base of None \<Rightarrow> False
                      | Some ob \<Rightarrow> off = ucast (d + ucast ob)))"

text \<open>
  The pieces of one iteration of the reverse loop: the state at the table lookup (a
  call has reset it), the effect of a forwarding branch on a pending load and the
  set of instructions that branch marks, the two table reads and their bounds, and
  the instructions the loop looks into (loads and stores).
\<close>

definition entered :: "'ty inst_kind \<Rightarrow> 'ty scan_state \<Rightarrow> 'ty scan_state" where
  "entered k s = (if is_call k then call_reset s else s)"

definition pending_forward ::
  "(value_id \<times> 'ty) option \<Rightarrow> 'ty \<Rightarrow> value_id \<Rightarrow> 'ty scan_state \<Rightarrow> 'ty scan_state" where
  "pending_forward next ty new s =
     (case next of
        Some (next_load, next_ty) \<Rightarrow> if next_ty = ty then forward next_load new s else s
      | None \<Rightarrow> s)"

definition forwarded :: "(value_id \<times> 'ty) option \<Rightarrow> 'ty \<Rightarrow> value_id set" where
  "forwarded next ty =
     (case next of Some (next_load, next_ty) \<Rightarrow> if next_ty = ty then {next_load} else {}
      | None \<Rightarrow> {})"

definition in_tables :: "layout_tables \<Rightarrow> 32 word \<Rightarrow> bool" where
  "in_tables L off \<longleftrightarrow>
     unat off < length (gByteOffsetToRegOffset L) \<and> unat off < length (gByteOffsetToRegSize L)"

definition reg_of :: "layout_tables \<Rightarrow> 32 word \<Rightarrow> nat" where
  "reg_of L off = gByteOffsetToRegOffset L ! unat off"

definition size_of_reg :: "layout_tables \<Rightarrow> 32 word \<Rightarrow> nat" where
  "size_of_reg L off = gByteOffsetToRegSize L ! unat off"

definition is_access :: "'ty inst_kind \<Rightarrow> bool" where
  "is_access k = (case k of Load ptr ty \<Rightarrow> True | Store v ty ptr \<Rightarrow> True | _ \<Rightarrow> False)"

text \<open>
  What the scan reads of an instruction: its identity, whether it is a load, a store,
  a call or something else, and the type of a load or of a stored value. Replacing
  uses changes none of it. The skeleton of a function keeps that of every
  instruction, and the identity of every block.
\<close>

definition shape :: "'ty inst_kind \<Rightarrow> 'ty inst_kind" where
  "shape k = (case k of
      Load ptr ty \<Rightarrow> Load 0 ty
    | Store v ty ptr \<Rightarrow> Store 0 ty 0
    | Call ops \<Rightarrow> Call []
    | _ \<Rightarrow> Other [])"

definition sig :: "'ty inst \<Rightarrow> 'ty inst" where
  "sig i = Inst (iid i) (shape (kind i))"

definition skeleton :: "'ty basic_block list \<Rightarrow> (nat \<times> 'ty inst list) list" where
  "skeleton bbs = map (\<lambda>bb. (block_id bb, map sig (insts bb))) bbs"

text \<open>
  The scan state without the function it rewrites, a map over results, and the loop
  over a given list of instructions (for a block, its instructions in reverse
  order).
\<close>

definition analysis :: "'ty scan_state \<Rightarrow> 'ty scan_state" where
  "analysis s = s\<lparr>cur := []\<rparr>"

definition on_result :: "('a \<Rightarrow> 'b) \<Rightarrow> fault + 'a \<Rightarrow> fault + 'b" where
  "on_result g r = (case r of Inl e \<Rightarrow> Inl e | Inr s \<Rightarrow> Inr (g s))"

fun visit_all ::
  "layout_tables \<Rightarrow> ('ty \<Rightarrow> nat) \<Rightarrow> OffsetMap \<Rightarrow> 'ty inst list \<Rightarrow> 'ty scan_state
   \<Rightarrow> fault + 'ty scan_state" where
  "visit_all L sz m [] s = Inr s"
| "visit_all L sz m (x # xs) s =
     (case visit L sz m x s of Inl e \<Rightarrow> Inl e | Inr s' \<Rightarrow> visit_all L sz m xs s')"

text \<open>
  An instruction that is no mapped load or store of register \<open>R\<close>; one that is
  moreover no call.
\<close>

definition no_access_to :: "layout_tables \<Rightarrow> OffsetMap \<Rightarrow> nat \<Rightarrow> 'ty inst \<Rightarrow> bool" where
  "no_access_to L m R i \<longleftrightarrow>
     (\<forall>off. m (iid i) = Some off \<longrightarrow> is_access (kind i) \<longrightarrow> reg_of L off \<noteq> R)"

definition quiet :: "layout_tables \<Rightarrow> OffsetMap \<Rightarrow> nat \<Rightarrow> 'ty inst \<Rightarrow> bool" where
  "quiet L m R i \<longleftrightarrow> \<not> is_call (kind i) \<and> no_access_to L m R i"

text \<open>
  Two scan states that agree on the four tables the decisions are taken from, two
  runs that mark the same instructions, and two results related in that way.
\<close>

definition same_decisions :: "'ty scan_state \<Rightarrow> 'ty scan_state \<Rightarrow> bool" where
  "same_decisions s t \<longleftrightarrow>
     live_on_entry s = live_on_entry t \<and> killed_in_block s = killed_in_block t \<and>
     local_dead s = local_dead t \<and> load_forwarding s = load_forwarding t"

definition same_additions ::
  "'ty scan_state \<Rightarrow> 'ty scan_state \<Rightarrow> 'ty scan_state \<Rightarrow> 'ty scan_state \<Rightarrow> bool" where
  "same_additions s t s' t' \<longleftrightarrow>
     (\<exists>D. to_remove s' = to_remove s \<union> D \<and> to_remove t' = to_remove t \<union> D)"

definition related ::
  "'ty scan_state \<Rightarrow> 'ty scan_state \<Rightarrow> fault + 'ty scan_state \<Rightarrow> fault + 'ty scan_state \<Rightarrow> bool" where
  "related s t r r' =
     (case r of
        Inl e \<Rightarrow> r' = Inl e
      | Inr s' \<Rightarrow> (case r' of Inl e \<Rightarrow> False
                   | Inr t' \<Rightarrow> same_decisions s' t' \<and> same_additions s t s' t'))"

text \<open>
  The function with block \<open>b\<close> cut down to the instructions \<open>pre\<close>.
\<close>

definition cut_block :: "'ty llvm_function \<Rightarrow> nat \<Rightarrow> 'ty inst list \<Rightarrow> 'ty llvm_function" where
  "cut_block f b pre = f\<lparr>blocks := (blocks f)[b := BasicBlock (block_id (blocks f ! b)) pre]\<rparr>"

text \<open>
  The identities of the pending loads. A load \<open>a\<close> of register \<open>R\<close> that is not
  marked for removal and is pending for no other register.
\<close>

definition pending_ids :: "'ty scan_state \<Rightarrow> value_id set" where
  "pending_ids s = {x. \<exists>r t. load_forwarding s r = Some (x, t)}"

definition kept :: "value_id \<Rightarrow> nat \<Rightarrow> 'ty scan_state \<Rightarrow> bool" where
  "kept a R s \<longleftrightarrow> a \<notin> to_remove s \<and> (\<forall>r t. load_forwarding s r = Some (a, t) \<longrightarrow> r = R)"

text \<open>
  An instruction whose visit stays within the tables and the bit sets, and a function
  that has, block by block, only instructions of another (up to their operands).
\<close>

definition safe_inst :: "layout_tables \<Rightarrow> OffsetMap \<Rightarrow> 'ty inst \<Rightarrow> bool" where
  "safe_inst L m i \<longleftrightarrow>
     (\<forall>off. m (iid i) = Some off \<longrightarrow>
        in_tables L off \<and> (is_access (kind i) \<longrightarrow> reg_of L off < RegSet_bits))"

definition same_insts :: "'ty llvm_function \<Rightarrow> 'ty llvm_function \<Rightarrow> bool" where
  "same_insts f' f \<longleftrightarrow>
     length (blocks f') = length (blocks f) \<and>
     (\<forall>b < length (blocks f). \<forall>j \<in> set (insts (blocks f' ! b)).
         \<exists>i \<in> set (insts (blocks f ! b)). sig j = sig i)"

text \<open>
  What entitles an instruction to the offset \<open>off\<close> under the map \<open>m\<close>: the one
  assignment \<^verbatim>\<open>GetOffsets\<close> has for its kind. A GEP needs a constant displacement
  and a mapped base, and gets their sum; a bitcast, a load and a store get the offset
  of their pointer operand; a pointer-typed PHI gets the offset of one of its incoming
  values; nothing entitles any other instruction to an offset.
\<close>

definition justified :: "OffsetMap \<Rightarrow> 'ty inst \<Rightarrow> 32 word \<Rightarrow> bool" where
  "justified m i off =
     (case kind i of
        GetElementPtr base acc \<Rightarrow>
          (case acc of
             None \<Rightarrow> False
           | Some d \<Rightarrow> (case m base of None \<Rightarrow> False | Some ob \<Rightarrow> off = ucast (d + ucast ob)))
      | BitCast base \<Rightarrow> m base = Some off
      | Load ptr ty \<Rightarrow> m ptr = Some off
      | Store v ty ptr \<Rightarrow> m ptr = Some off
      | PHI is_ptr incoming \<Rightarrow> is_ptr \<and> (\<exists>p \<in> set incoming. m p = Some off)
      | Call ops \<Rightarrow> False
      | Other ops \<Rightarrow> False)"

definition all_justified :: "'ty inst list \<Rightarrow> OffsetMap \<Rightarrow> bool" where
  "all_justified xs m \<longleftrightarrow> (\<forall>i \<in> set xs. \<forall>off. m (iid i) = Some off \<longrightarrow> justified m i off)"

section \<open>Properties of the offset propagator\<close>

lemma GetOffsets_inst_flag_sticky:
  "snd s \<Longrightarrow> snd (GetOffsets_inst i s)"
  by (cases i; cases s) (auto split: inst_kind.splits option.splits prod.splits)

lemma GetOffsets_inst_no_progress:
  "\<not> snd (GetOffsets_inst i s) \<Longrightarrow> GetOffsets_inst i s = s"
  by (cases i; cases s) (auto split: inst_kind.splits option.splits prod.splits if_splits)

lemma GetOffsets_fold_flag_sticky:
  "snd s \<Longrightarrow> snd (fold GetOffsets_inst xs s)"
proof (induction xs arbitrary: s)
  case Nil
  then show ?case by simp
next
  case (Cons x xs)
  from Cons.prems have "snd (GetOffsets_inst x s)" by (rule GetOffsets_inst_flag_sticky)
  then show ?case using Cons.IH by simp
qed

lemma GetOffsets_fold_no_progress:
  "\<not> snd (fold GetOffsets_inst xs s) \<Longrightarrow>
   fold GetOffsets_inst xs s = s \<and> (\<forall>i \<in> set xs. GetOffsets_inst i s = s)"
proof (induction xs arbitrary: s)
  case Nil
  then show ?case by simp
next
  case (Cons x xs)
  have "\<not> snd (GetOffsets_inst x s)"
    using Cons.prems GetOffsets_fold_flag_sticky [of "GetOffsets_inst x s" xs] by auto
  then have "GetOffsets_inst x s = s" by (rule GetOffsets_inst_no_progress)
  with Cons show ?case by simp
qed

lemma pass_no_progress:
  "GetOffsets_pass f offset = (offset', False) \<Longrightarrow> offset' = offset"
  using GetOffsets_fold_no_progress [of "instructions f" "(offset, False)"]
  by (simp add: GetOffsets_pass_def)

lemma loop_fixpoint:
  "GetOffsets_pass f (fst (GetOffsets_loop f offset n)) = (fst (GetOffsets_loop f offset n), False)"
proof (induction f offset n rule: GetOffsets_loop.induct)
  case (1 f offset n)
  obtain offset' mp where p: "GetOffsets_pass f offset = (offset', mp)"
    by (cases "GetOffsets_pass f offset")
  show ?case
  proof (cases mp)
    case True
    with 1 p show ?thesis by (simp add: GetOffsets_loop.simps [of f offset n])
  next
    case False
    with p have "offset' = offset" by (simp add: pass_no_progress)
    with p False show ?thesis by (simp add: GetOffsets_loop.simps [of f offset n])
  qed
qed

lemma loop_mono:
  "offset v = Some b \<Longrightarrow> fst (GetOffsets_loop f offset n) v = Some b"
proof (induction f offset n rule: GetOffsets_loop.induct)
  case (1 f offset n)
  obtain offset' mp where p: "GetOffsets_pass f offset = (offset', mp)"
    by (cases "GetOffsets_pass f offset")
  have "offset' v = Some b" using pass_mono [OF p "1.prems"] .
  with 1 p show ?case
    by (cases mp) (simp_all add: GetOffsets_loop.simps [of f offset n])
qed

lemma loop_passes_bound:
  "snd (GetOffsets_loop f offset n) \<le> n + card (unmapped f offset) + 1"
proof (induction f offset n rule: GetOffsets_loop.induct)
  case (1 f offset n)
  obtain offset' mp where p: "GetOffsets_pass f offset = (offset', mp)"
    by (cases "GetOffsets_pass f offset")
  show ?case
  proof (cases mp)
    case True
    then have "card (unmapped f offset') < card (unmapped f offset)"
      using p pass_progress_card [of offset' f offset] by simp
    moreover have "snd (GetOffsets_loop f offset' (Suc n)) \<le> Suc n + card (unmapped f offset') + 1"
      using 1 p True by simp
    ultimately show ?thesis
      using p True by (simp add: GetOffsets_loop.simps [of f offset n])
  next
    case False
    with p show ?thesis by (simp add: GetOffsets_loop.simps [of f offset n])
  qed
qed

lemma GetOffsets_inst_dom:
  "dom (fst (GetOffsets_inst i s)) \<subseteq> insert (iid i) (dom (fst s))"
  by (cases i; cases s) (auto split: inst_kind.splits option.splits prod.splits if_splits)

lemma GetOffsets_fold_dom:
  "dom (fst (fold GetOffsets_inst xs s)) \<subseteq> dom (fst s) \<union> iid ` set xs"
proof (induction xs arbitrary: s)
  case Nil
  then show ?case by simp
next
  case (Cons x xs)
  show ?case
    using Cons.IH [of "GetOffsets_inst x s"] GetOffsets_inst_dom [of x s] by auto
qed

lemma loop_dom:
  "dom (fst (GetOffsets_loop f offset n)) \<subseteq> dom offset \<union> iid ` set (instructions f)"
proof (induction f offset n rule: GetOffsets_loop.induct)
  case (1 f offset n)
  obtain offset' mp where p: "GetOffsets_pass f offset = (offset', mp)"
    by (cases "GetOffsets_pass f offset")
  have d: "dom offset' \<subseteq> dom offset \<union> iid ` set (instructions f)"
    using GetOffsets_fold_dom [of "instructions f" "(offset, False)"] p
    by (simp add: GetOffsets_pass_def)
  show ?case
  proof (cases mp)
    case True
    then have "dom (fst (GetOffsets_loop f offset' (Suc n))) \<subseteq> dom offset' \<union> iid ` set (instructions f)"
      using 1 p by simp
    with d have "dom (fst (GetOffsets_loop f offset' (Suc n))) \<subseteq> dom offset \<union> iid ` set (instructions f)"
      by blast
    then show ?thesis using p True by (simp add: GetOffsets_loop.simps [of f offset n])
  next
    case False
    with p d show ?thesis by (simp add: GetOffsets_loop.simps [of f offset n])
  qed
qed

lemma GetOffsets_inst_other:
  "iid i \<noteq> v \<Longrightarrow> fst (GetOffsets_inst i s) v = fst s v"
  by (cases i; cases s) (auto split: inst_kind.splits option.splits prod.splits if_splits)

lemma GetOffsets_inst_gep_none:
  "kind i = GetElementPtr base None \<Longrightarrow> GetOffsets_inst i s = s"
  by (cases i; cases s) (auto simp: GetOffsetFromBasePtr_def split: option.splits)

lemma GetOffsets_fold_gep_none:
  assumes "\<forall>i \<in> set xs. iid i = g \<longrightarrow> kind i = GetElementPtr base None"
    and "fst s g = None"
  shows "fst (fold GetOffsets_inst xs s) g = None"
  using assms
proof (induction xs arbitrary: s)
  case Nil
  then show ?case by simp
next
  case (Cons x xs)
  have "fst (GetOffsets_inst x s) g = None"
  proof (cases "iid x = g")
    case True
    with Cons.prems have "kind x = GetElementPtr base None" by simp
    then show ?thesis using Cons.prems(2) by (simp add: GetOffsets_inst_gep_none)
  next
    case False
    then show ?thesis using Cons.prems(2) by (simp add: GetOffsets_inst_other)
  qed
  then show ?case using Cons by simp
qed

lemma loop_gep_none:
  "\<forall>i \<in> set (instructions f). iid i = g \<longrightarrow> kind i = GetElementPtr base None \<Longrightarrow>
   offset g = None \<Longrightarrow> fst (GetOffsets_loop f offset n) g = None"
proof (induction f offset n rule: GetOffsets_loop.induct)
  case (1 f offset n)
  obtain offset' mp where p: "GetOffsets_pass f offset = (offset', mp)"
    by (cases "GetOffsets_pass f offset")
  have "fst (fold GetOffsets_inst (instructions f) (offset, False)) g = None"
    using "1.prems" by (intro GetOffsets_fold_gep_none [where base = base]) simp_all
  then have "offset' g = None"
    using p by (simp add: GetOffsets_pass_def)
  with 1 p show ?case
    by (cases mp) (simp_all add: GetOffsets_loop.simps [of f offset n])
qed

lemma GetOffsets_inst_gep_consistent:
  assumes "iid i = g \<longrightarrow> kind i = GetElementPtr base (Some d)"
    and "gep_consistent (fst s) g base d"
  shows "gep_consistent (fst (GetOffsets_inst i s)) g base d"
proof (cases "fst s g")
  case (Some off)
  then obtain ob where ob: "fst s base = Some ob" "off = ucast (d + ucast ob)"
    using assms(2) by (auto simp: gep_consistent_def split: option.splits)
  obtain m p where s: "s = (m, p)" by (cases s)
  have "fst (GetOffsets_inst i s) g = Some off" "fst (GetOffsets_inst i s) base = Some ob"
    using Some ob GetOffsets_inst_mono [of m _ _ i p] by (simp_all add: s)
  then show ?thesis using ob by (simp add: gep_consistent_def)
next
  case None
  show ?thesis
  proof (cases "iid i = g")
    case False
    then show ?thesis using None by (simp add: gep_consistent_def GetOffsets_inst_other)
  next
    case True
    then have k: "kind i = GetElementPtr base (Some d)" using assms by simp
    obtain m p where s: "s = (m, p)" by (cases s)
    from True k have i: "i = Inst g (GetElementPtr base (Some d))" by (cases i) simp
    show ?thesis using None
      by (auto simp: i s gep_consistent_def GetOffsetFromBasePtr_def split: option.splits)
  qed
qed

lemma GetOffsets_fold_gep_consistent:
  assumes "\<forall>i \<in> set xs. iid i = g \<longrightarrow> kind i = GetElementPtr base (Some d)"
    and "gep_consistent (fst s) g base d"
  shows "gep_consistent (fst (fold GetOffsets_inst xs s)) g base d"
  using assms
proof (induction xs arbitrary: s)
  case Nil
  then show ?case by simp
next
  case (Cons x xs)
  have "gep_consistent (fst (GetOffsets_inst x s)) g base d"
    using Cons.prems by (intro GetOffsets_inst_gep_consistent) simp_all
  then show ?case using Cons by simp
qed

lemma loop_gep_consistent:
  "\<forall>i \<in> set (instructions f). iid i = g \<longrightarrow> kind i = GetElementPtr base (Some d) \<Longrightarrow>
   gep_consistent offset g base d \<Longrightarrow>
   gep_consistent (fst (GetOffsets_loop f offset n)) g base d"
proof (induction f offset n rule: GetOffsets_loop.induct)
  case (1 f offset n)
  obtain offset' mp where p: "GetOffsets_pass f offset = (offset', mp)"
    by (cases "GetOffsets_pass f offset")
  have "gep_consistent (fst (fold GetOffsets_inst (instructions f) (offset, False))) g base d"
    using "1.prems" by (intro GetOffsets_fold_gep_consistent) simp_all
  then have "gep_consistent offset' g base d"
    using p by (simp add: GetOffsets_pass_def)
  with 1 p show ?case
    by (cases mp) (simp_all add: GetOffsets_loop.simps [of f offset n])
qed

lemma fixpoint_gep_mapped:
  fixes f :: "'ty llvm_function"
  assumes "GetOffsets_pass f m = (m, False)"
    and "Inst g (GetElementPtr base (Some d)) \<in> set (instructions f)"
    and "m base = Some ob"
  shows "m g \<noteq> None"
proof
  assume n: "m g = None"
  have "\<not> snd (fold GetOffsets_inst (instructions f) (m, False))"
    using assms(1) by (simp add: GetOffsets_pass_def)
  then have "\<forall>i \<in> set (instructions f). GetOffsets_inst i (m, False) = (m, False)"
    by (simp add: GetOffsets_fold_no_progress)
  then have "GetOffsets_inst (Inst g (GetElementPtr base (Some d)) :: 'ty inst) (m, False) = (m, False)"
    using assms(2) by blast
  then show False using n assms(3) by (simp add: GetOffsetFromBasePtr_def)
qed

lemma distinct_iid_unique:
  assumes "distinct (map iid xs)" "i \<in> set xs" "j \<in> set xs" "iid j = iid i"
  shows "j = i"
  using assms by (meson distinct_map inj_onD)

lemma distinct_iid_kind:
  assumes "distinct (map iid xs)" "Inst g k \<in> set xs" "j \<in> set xs" "iid j = g"
  shows "kind j = k"
  using distinct_iid_unique [OF assms(1) assms(2) assms(3)] assms(4) by auto

lemma GetOffsets_gep_some:
  assumes d: "distinct (state_ptr f # map iid (instructions f))"
    and g: "Inst g (GetElementPtr base (Some d)) \<in> set (instructions f)"
    and b: "GetOffsets f base = Some ob"
  shows "GetOffsets f g = Some (ucast (d + ucast ob))"
proof -
  let ?init = "Map.empty(state_ptr f \<mapsto> (0::32 word))"
  have u: "\<forall>i \<in> set (instructions f). iid i = g \<longrightarrow> kind i = GetElementPtr base (Some d)"
    using d g by (auto dest: distinct_iid_kind)
  have "g \<noteq> state_ptr f" using d g by force
  then have "gep_consistent ?init g base d" by (simp add: gep_consistent_def)
  then have c: "gep_consistent (GetOffsets f) g base d"
    unfolding GetOffsets_def by (rule loop_gep_consistent [OF u])
  have "GetOffsets_pass f (GetOffsets f) = (GetOffsets f, False)"
    unfolding GetOffsets_def by (rule loop_fixpoint)
  then have "GetOffsets f g \<noteq> None" using g b by (rule fixpoint_gep_mapped)
  then show ?thesis using c b by (auto simp: gep_consistent_def)
qed

lemma GetOffsets_gep_none:
  assumes d: "distinct (state_ptr f # map iid (instructions f))"
    and g: "Inst g (GetElementPtr base None) \<in> set (instructions f)"
  shows "GetOffsets f g = None"
proof -
  have u: "\<forall>i \<in> set (instructions f). iid i = g \<longrightarrow> kind i = GetElementPtr base None"
    using d g by (auto dest: distinct_iid_kind)
  have "g \<noteq> state_ptr f" using d g by force
  then show ?thesis
    unfolding GetOffsets_def by (intro loop_gep_none [OF u]) simp
qed

lemma ucast_up_unat: "unat (ucast (ob :: 32 word) :: 64 word) = unat ob"
proof -
  have "unat ob < 2 ^ 32" using unsigned_less [of ob] by simp
  then have "unat ob < 2 ^ 64" by (rule less_trans) simp
  then show ?thesis
    by (simp add: unsigned_ucast_eq take_bit_nat_eq_self)
qed

lemma gep_sum_no_overflow:
  assumes "unat (d::64 word) + unat (ob::32 word) < 2 ^ 32"
  shows "unat (ucast (d + ucast ob) :: 32 word) = unat ob + unat d"
proof -
  have "unat d + unat (ucast ob :: 64 word) < 2 ^ 32" using assms by (simp add: ucast_up_unat)
  moreover have "(2::nat) ^ 32 < 2 ^ LENGTH(64)" by simp
  ultimately have "unat d + unat (ucast ob :: 64 word) < 2 ^ LENGTH(64)" by (rule less_trans)
  then have "unat (d + ucast ob) = unat d + unat (ucast ob :: 64 word)"
    by (rule iffD1 [OF unat_add_lem])
  then have s: "unat (d + ucast ob) = unat d + unat ob"
    by (simp only: ucast_up_unat)
  show ?thesis
    using assms by (simp add: unsigned_ucast_eq s take_bit_nat_eq_self)
qed

lemma GetOffsets_state_ptr: "GetOffsets f (state_ptr f) = Some 0"
  unfolding GetOffsets_def by (rule loop_mono) simp

lemma GetOffsets_fixpoint: "GetOffsets_pass f (GetOffsets f) = (GetOffsets f, False)"
  unfolding GetOffsets_def by (rule loop_fixpoint)

lemma loop_at_fixpoint:
  "GetOffsets_pass f offset = (offset, False) \<Longrightarrow> GetOffsets_loop f offset n = (offset, Suc n)"
  by (simp add: GetOffsets_loop.simps [of f offset n])

lemma justified_mono:
  assumes "\<And>v b. m v = Some b \<Longrightarrow> m' v = Some b" "justified m i off"
  shows "justified m' i off"
proof (cases "kind i")
  case (GetElementPtr base acc)
  then show ?thesis using assms
    by (auto simp: justified_def split: option.splits)
next
  case (PHI is_ptr incoming)
  then show ?thesis using assms by (auto simp: justified_def)
qed (use assms in \<open>auto simp: justified_def\<close>)

lemma first_known_Some:
  "first_known m ps = Some b \<Longrightarrow> \<exists>p \<in> set ps. m p = Some b"
  by (induction ps) (auto split: option.splits)

lemma GetOffsets_inst_justified:
  assumes "fst s (iid j) = None" "fst (GetOffsets_inst j s) (iid j) = Some off"
  shows "justified (fst s) j off"
proof -
  obtain x k where j: "j = Inst x k" by (cases j)
  obtain m p where s: "s = (m, p)" by (cases s)
  show ?thesis
  proof (cases k)
    case (GetElementPtr base acc)
    then show ?thesis using assms
      by (auto simp: j s justified_def GetOffsetFromBasePtr_def split: option.splits if_splits)
  next
    case (BitCast base)
    then show ?thesis using assms by (auto simp: j s justified_def split: option.splits)
  next
    case (Load ptr ty)
    then show ?thesis using assms by (auto simp: j s justified_def split: option.splits)
  next
    case (Store v ty ptr)
    then show ?thesis using assms by (auto simp: j s justified_def split: option.splits)
  next
    case (PHI is_ptr incoming)
    then show ?thesis using assms
      by (auto simp: j s justified_def dest: first_known_Some split: option.splits if_splits)
  next
    case (Call ops)
    then show ?thesis using assms by (simp add: j s)
  next
    case (Other ops)
    then show ?thesis using assms by (simp add: j s)
  qed
qed

lemma GetOffsets_inst_all_justified:
  assumes d: "distinct (map iid xs)" and j: "j \<in> set xs" and inv: "all_justified xs (fst s)"
  shows "all_justified xs (fst (GetOffsets_inst j s))"
  unfolding all_justified_def
proof (intro ballI allI impI)
  fix i off
  assume i: "i \<in> set xs" and o: "fst (GetOffsets_inst j s) (iid i) = Some off"
  obtain m p where s: "s = (m, p)" by (cases s)
  have mono: "fst (GetOffsets_inst j s) v = Some b" if "fst s v = Some b" for v b
    using that GetOffsets_inst_mono [of m v b j p] by (simp add: s)
  show "justified (fst (GetOffsets_inst j s)) i off"
  proof (cases "fst s (iid i)")
    case (Some off')
    then have "off' = off" using mono [OF Some] o by simp
    then have "justified (fst s) i off" using inv i Some by (auto simp: all_justified_def)
    then show ?thesis using mono by (rule justified_mono [rotated])
  next
    case None
    have "iid j = iid i"
    proof (rule ccontr)
      assume "iid j \<noteq> iid i"
      then have "fst (GetOffsets_inst j s) (iid i) = fst s (iid i)"
        by (rule GetOffsets_inst_other)
      then show False using None o by simp
    qed
    then have "j = i" using distinct_iid_unique [OF d i j] by simp
    then have "justified (fst s) i off" using None o GetOffsets_inst_justified by blast
    then show ?thesis using mono by (rule justified_mono [rotated])
  qed
qed

lemma GetOffsets_fold_all_justified:
  "distinct (map iid xs) \<Longrightarrow> set ys \<subseteq> set xs \<Longrightarrow> all_justified xs (fst s) \<Longrightarrow>
   all_justified xs (fst (fold GetOffsets_inst ys s))"
proof (induction ys arbitrary: s)
  case Nil
  then show ?case by simp
next
  case (Cons y ys)
  have "all_justified xs (fst (GetOffsets_inst y s))"
    using Cons.prems by (intro GetOffsets_inst_all_justified) simp_all
  then show ?case using Cons by simp
qed

lemma loop_all_justified:
  "distinct (map iid (instructions f)) \<Longrightarrow> all_justified (instructions f) offset \<Longrightarrow>
   all_justified (instructions f) (fst (GetOffsets_loop f offset n))"
proof (induction f offset n rule: GetOffsets_loop.induct)
  case (1 f offset n)
  obtain offset' mp where p: "GetOffsets_pass f offset = (offset', mp)"
    by (cases "GetOffsets_pass f offset")
  have "all_justified (instructions f) (fst (fold GetOffsets_inst (instructions f) (offset, False)))"
    using "1.prems" by (intro GetOffsets_fold_all_justified) simp_all
  then have "all_justified (instructions f) offset'"
    using p by (simp add: GetOffsets_pass_def)
  with 1 p show ?case
    by (cases mp) (simp_all add: GetOffsets_loop.simps [of f offset n])
qed

lemma GetOffsets_all_justified:
  assumes "distinct (state_ptr f # map iid (instructions f))"
  shows "all_justified (instructions f) (GetOffsets f)"
  unfolding GetOffsets_def
proof (rule loop_all_justified)
  show "distinct (map iid (instructions f))" using assms by simp
  show "all_justified (instructions f) (Map.empty(state_ptr f \<mapsto> 0))"
    unfolding all_justified_def
  proof (intro ballI allI impI)
    fix i off
    assume "i \<in> set (instructions f)"
    then have "iid i \<in> iid ` set (instructions f)" by (rule imageI)
    moreover have "state_ptr f \<notin> iid ` set (instructions f)" using assms by simp
    ultimately have "iid i \<noteq> state_ptr f" by metis
    moreover assume "(Map.empty(state_ptr f \<mapsto> (0 :: 32 word))) (iid i) = Some off"
    ultimately show "justified (Map.empty(state_ptr f \<mapsto> 0)) i off" by simp
  qed
qed

lemma GetOffsets_dom:
  "dom (GetOffsets f) \<subseteq> insert (state_ptr f) (iid ` set (instructions f))"
  using loop_dom [of f "Map.empty(state_ptr f \<mapsto> 0)" 0] by (simp add: GetOffsets_def)

lemma GetOffsets_justified:
  assumes "distinct (state_ptr f # map iid (instructions f))"
    and "i \<in> set (instructions f)" and "GetOffsets f (iid i) = Some off"
  shows "justified (GetOffsets f) i off"
  using GetOffsets_all_justified [OF assms(1)] assms(2,3) unfolding all_justified_def by blast

lemma first_known_None:
  "first_known m ps = None \<longleftrightarrow> (\<forall>p \<in> set ps. m p = None)"
  by (induction ps) (auto split: option.splits)

lemma fixpoint_inst:
  assumes "GetOffsets_pass f m = (m, False)" and "i \<in> set (instructions f)"
  shows "GetOffsets_inst i (m, False) = (m, False)"
proof -
  have "\<not> snd (fold GetOffsets_inst (instructions f) (m, False))"
    using assms(1) by (simp add: GetOffsets_pass_def)
  then have "\<forall>i \<in> set (instructions f). GetOffsets_inst i (m, False) = (m, False)"
    by (simp add: GetOffsets_fold_no_progress)
  then show ?thesis using assms(2) by blast
qed

lemma GetOffsets_entry:
  fixes f :: "'ty llvm_function"
  assumes d: "distinct (state_ptr f # map iid (instructions f))"
    and i: "Inst x k \<in> set (instructions f)"
  shows "case k of
       GetElementPtr base acc \<Rightarrow>
         GetOffsets f x =
           (case acc of
              None \<Rightarrow> None
            | Some d \<Rightarrow> map_option (\<lambda>ob. ucast (d + ucast ob)) (GetOffsets f base))
     | BitCast base \<Rightarrow> GetOffsets f x = GetOffsets f base
     | Load ptr ty \<Rightarrow> GetOffsets f x = GetOffsets f ptr
     | Store val ty ptr \<Rightarrow> GetOffsets f x = GetOffsets f ptr
     | PHI is_ptr incoming \<Rightarrow>
         (case GetOffsets f x of
            None \<Rightarrow> \<not> is_ptr \<or> (\<forall>p \<in> set incoming. GetOffsets f p = None)
          | Some off \<Rightarrow> is_ptr \<and> (\<exists>p \<in> set incoming. GetOffsets f p = Some off))
     | Call ops \<Rightarrow> GetOffsets f x = None
     | Other ops \<Rightarrow> GetOffsets f x = None"
proof -
  let ?m = "GetOffsets f"
  have fx: "GetOffsets_inst (Inst x k) (?m, False) = (?m, False)"
    using GetOffsets_fixpoint i by (rule fixpoint_inst)
  have just: "justified ?m (Inst x k) off" if "?m x = Some off" for off
    using GetOffsets_justified [OF d i] that by simp
  show ?thesis
  proof (cases "?m x")
    case None
    show ?thesis
    proof (cases k)
      case (GetElementPtr base acc)
      then show ?thesis using fx None
        by (auto simp: GetOffsetFromBasePtr_def split: option.splits if_splits)
    next
      case (PHI is_ptr incoming)
      then show ?thesis using fx None
        by (auto simp: first_known_None split: option.splits if_splits)
    qed (use fx None in \<open>auto split: option.splits if_splits\<close>)
  next
    case (Some off)
    from just [OF Some] show ?thesis using Some
      by (cases k) (auto simp: justified_def split: option.splits)
  qed
qed

text \<open>
  Claim C6. The offset map only grows. A value that has an offset keeps it through
  every instruction of a pass, every pass, and the whole loop from any map; the map
  \<^verbatim>\<open>GetOffsets\<close> returns is a fixed point, so running the propagation again from
  it (one more pass, or the loop to its end) returns the same map. The state pointer
  is at offset 0. The map is partial, and what it holds is determined: its entries
  are the state pointer and instructions of the function, and in a function whose
  values have distinct identities the entry of an instruction is exactly what its
  kind gives it. A GEP with a constant displacement has the sum of the displacement
  and its base's offset when the base has one, and no entry otherwise; a GEP without
  a constant displacement has no entry; a bitcast, a load and a store have the entry
  of their pointer operand, none when that has none; a PHI has an entry only when it
  is pointer-typed, and then the offset of one of its incoming values, none when no
  incoming value has one; a call and any other instruction has no entry. There is no
  placeholder value.
\<close>

theorem offset_map_only_grows:
  "(offset v = Some b \<longrightarrow>
      fst (GetOffsets_inst i (offset, made_progress)) v = Some b \<and>
      fst (GetOffsets_pass f offset) v = Some b \<and>
      fst (GetOffsets_loop f offset n) v = Some b)
   \<and> GetOffsets_pass f (GetOffsets f) = (GetOffsets f, False)
   \<and> fst (GetOffsets_loop f (GetOffsets f) n) = GetOffsets f
   \<and> GetOffsets f (state_ptr f) = Some 0
   \<and> dom (GetOffsets f) \<subseteq> insert (state_ptr f) (iid ` set (instructions f))
   \<and> (distinct (state_ptr f # map iid (instructions f)) \<and> Inst x k \<in> set (instructions f) \<longrightarrow>
        (case k of
           GetElementPtr base acc \<Rightarrow>
             GetOffsets f x =
               (case acc of
                  None \<Rightarrow> None
                | Some d \<Rightarrow> map_option (\<lambda>ob. ucast (d + ucast ob)) (GetOffsets f base))
         | BitCast base \<Rightarrow> GetOffsets f x = GetOffsets f base
         | Load ptr ty \<Rightarrow> GetOffsets f x = GetOffsets f ptr
         | Store val ty ptr \<Rightarrow> GetOffsets f x = GetOffsets f ptr
         | PHI is_ptr incoming \<Rightarrow>
             (case GetOffsets f x of
                None \<Rightarrow> \<not> is_ptr \<or> (\<forall>p \<in> set incoming. GetOffsets f p = None)
              | Some off \<Rightarrow> is_ptr \<and> (\<exists>p \<in> set incoming. GetOffsets f p = Some off))
         | Call ops \<Rightarrow> GetOffsets f x = None
         | Other ops \<Rightarrow> GetOffsets f x = None))"
proof -
  have "fst (GetOffsets_pass f offset) v = Some b" if "offset v = Some b"
    using that pass_mono [of f offset "fst (GetOffsets_pass f offset)" "snd (GetOffsets_pass f offset)" v b]
    by simp
  moreover have "fst (GetOffsets_loop f (GetOffsets f) n) = GetOffsets f"
    by (simp add: loop_at_fixpoint GetOffsets_fixpoint)
  ultimately have old: "(offset v = Some b \<longrightarrow>
      fst (GetOffsets_inst i (offset, made_progress)) v = Some b \<and>
      fst (GetOffsets_pass f offset) v = Some b \<and>
      fst (GetOffsets_loop f offset n) v = Some b)
   \<and> GetOffsets_pass f (GetOffsets f) = (GetOffsets f, False)
   \<and> fst (GetOffsets_loop f (GetOffsets f) n) = GetOffsets f
   \<and> GetOffsets f (state_ptr f) = Some 0"
    by (simp add: GetOffsets_inst_mono loop_mono GetOffsets_fixpoint GetOffsets_state_ptr)
  show ?thesis
    using old GetOffsets_dom [of f] GetOffsets_entry [of f x k] by blast
qed

lemmas eval_offsets =
  GetOffsets_def GetOffsets_loop.simps GetOffsets_pass_def instructions_def
  GetOffsetFromBasePtr_def

text \<open>The witness: in \<open>gep_function\<close> value 1 (the constant GEP) has offset 8 and
  keeps it; the load 3 through the bitcast 2 has the bitcast's offset; the variable
  GEP 4 and the store 5 through it have no entry.\<close>

theorem offset_map_only_grows_witness:
  "GetOffsets gep_function 1 = Some 8 \<and>
   fst (GetOffsets_inst (Inst 9 (BitCast 1)) (GetOffsets gep_function, False)) 1 = Some 8 \<and>
   fst (GetOffsets_pass gep_function (GetOffsets gep_function)) 1 = Some 8 \<and>
   fst (GetOffsets_loop gep_function (GetOffsets gep_function) 0) 1 = Some 8 \<and>
   GetOffsets gep_function 0 = Some 0 \<and>
   distinct (state_ptr gep_function # map iid (instructions gep_function)) \<and>
   Inst 3 (Load 2 (IntegerTy 8)) \<in> set (instructions gep_function) \<and>
   GetOffsets gep_function 2 = Some 8 \<and>
   GetOffsets gep_function 3 = Some 8 \<and>
   Inst 4 (GetElementPtr 0 None) \<in> set (instructions gep_function) \<and>
   GetOffsets gep_function 4 = None \<and>
   Inst 5 (Store 3 (IntegerTy 8) 4) \<in> set (instructions gep_function) \<and>
   GetOffsets gep_function 5 = None"
proof -
  have h: "GetOffsets gep_function 1 = Some 8"
    by (simp add: eval_offsets gep_function_def)
  have h2: "GetOffsets gep_function 2 = Some 8"
    by (simp add: eval_offsets gep_function_def)
  have p: "state_ptr gep_function = 0" by (simp add: gep_function_def)
  have d: "distinct (state_ptr gep_function # map iid (instructions gep_function))"
    by (simp add: gep_function_def instructions_def)
  have i3: "Inst 3 (Load 2 (IntegerTy 8)) \<in> set (instructions gep_function)"
    by (simp add: gep_function_def instructions_def)
  have i4: "Inst 4 (GetElementPtr 0 None) \<in> set (instructions gep_function)"
    by (simp add: gep_function_def instructions_def)
  have i5: "Inst 5 (Store 3 (IntegerTy 8) 4) \<in> set (instructions gep_function)"
    by (simp add: gep_function_def instructions_def)
  have "GetOffsets gep_function (state_ptr gep_function) = Some 0"
    using offset_map_only_grows [of "GetOffsets gep_function" 1 8 "Inst 9 (BitCast 1)" False
        gep_function 0] by blast
  then have h0: "GetOffsets gep_function 0 = Some 0" by (simp only: p)
  have "case Load 2 (IntegerTy 8) of
           GetElementPtr base acc \<Rightarrow>
             GetOffsets gep_function 3 =
               (case acc of
                  None \<Rightarrow> None
                | Some d \<Rightarrow> map_option (\<lambda>ob. ucast (d + ucast ob)) (GetOffsets gep_function base))
         | BitCast base \<Rightarrow> GetOffsets gep_function 3 = GetOffsets gep_function base
         | Load ptr ty \<Rightarrow> GetOffsets gep_function 3 = GetOffsets gep_function ptr
         | Store val ty ptr \<Rightarrow> GetOffsets gep_function 3 = GetOffsets gep_function ptr
         | PHI is_ptr incoming \<Rightarrow>
             (case GetOffsets gep_function 3 of
                None \<Rightarrow> \<not> is_ptr \<or> (\<forall>p \<in> set incoming. GetOffsets gep_function p = None)
              | Some off \<Rightarrow> is_ptr \<and> (\<exists>p \<in> set incoming. GetOffsets gep_function p = Some off))
         | Call ops \<Rightarrow> GetOffsets gep_function 3 = None
         | Other ops \<Rightarrow> GetOffsets gep_function 3 = None"
    using offset_map_only_grows [of "GetOffsets gep_function" 1 8 "Inst 9 (BitCast 1)" False
        gep_function 0 3 "Load 2 (IntegerTy 8)"] d i3 by blast
  then have c3: "GetOffsets gep_function 3 = Some 8" using h2 by simp
  have "case GetElementPtr 0 None of
           GetElementPtr base acc \<Rightarrow>
             GetOffsets gep_function 4 =
               (case acc of
                  None \<Rightarrow> None
                | Some d \<Rightarrow> map_option (\<lambda>ob. ucast (d + ucast ob)) (GetOffsets gep_function base))
         | BitCast base \<Rightarrow> GetOffsets gep_function 4 = GetOffsets gep_function base
         | Load ptr (ty :: llvm_type) \<Rightarrow> GetOffsets gep_function 4 = GetOffsets gep_function ptr
         | Store val ty ptr \<Rightarrow> GetOffsets gep_function 4 = GetOffsets gep_function ptr
         | PHI is_ptr incoming \<Rightarrow>
             (case GetOffsets gep_function 4 of
                None \<Rightarrow> \<not> is_ptr \<or> (\<forall>p \<in> set incoming. GetOffsets gep_function p = None)
              | Some off \<Rightarrow> is_ptr \<and> (\<exists>p \<in> set incoming. GetOffsets gep_function p = Some off))
         | Call ops \<Rightarrow> GetOffsets gep_function 4 = None
         | Other ops \<Rightarrow> GetOffsets gep_function 4 = None"
    using offset_map_only_grows [of "GetOffsets gep_function" 1 8 "Inst 9 (BitCast 1)" False
        gep_function 0 4 "GetElementPtr 0 None"] d i4 by blast
  then have c4: "GetOffsets gep_function 4 = None" by simp
  have "case Store 3 (IntegerTy 8) 4 of
           GetElementPtr base acc \<Rightarrow>
             GetOffsets gep_function 5 =
               (case acc of
                  None \<Rightarrow> None
                | Some d \<Rightarrow> map_option (\<lambda>ob. ucast (d + ucast ob)) (GetOffsets gep_function base))
         | BitCast base \<Rightarrow> GetOffsets gep_function 5 = GetOffsets gep_function base
         | Load ptr ty \<Rightarrow> GetOffsets gep_function 5 = GetOffsets gep_function ptr
         | Store val ty ptr \<Rightarrow> GetOffsets gep_function 5 = GetOffsets gep_function ptr
         | PHI is_ptr incoming \<Rightarrow>
             (case GetOffsets gep_function 5 of
                None \<Rightarrow> \<not> is_ptr \<or> (\<forall>p \<in> set incoming. GetOffsets gep_function p = None)
              | Some off \<Rightarrow> is_ptr \<and> (\<exists>p \<in> set incoming. GetOffsets gep_function p = Some off))
         | Call ops \<Rightarrow> GetOffsets gep_function 5 = None
         | Other ops \<Rightarrow> GetOffsets gep_function 5 = None"
    using offset_map_only_grows [of "GetOffsets gep_function" 1 8 "Inst 9 (BitCast 1)" False
        gep_function 0 5 "Store 3 (IntegerTy 8) 4"] d i5 by blast
  then have c5: "GetOffsets gep_function 5 = None" using c4 by simp
  show ?thesis
    using h h2 h0 d i3 i4 i5 c3 c4 c5
      offset_map_only_grows [of "GetOffsets gep_function" 1 8 "Inst 9 (BitCast 1)" False
        gep_function 0]
    by blast
qed

text \<open>
  Claim C7. In a function whose values have distinct identities, a GEP with a
  constant displacement \<open>d\<close> whose base has the offset \<open>ob\<close> in the final map has
  the offset \<open>d + ob\<close> there, computed in 64 bits and narrowed to the map's 32 bits
  (the plain sum when that is below \<open>2 ^ 32\<close>); the step that visits an unmapped such
  GEP with a mapped base assigns exactly that. A GEP whose displacement is not
  constant is never assigned: the step leaves the map and the progress flag as they
  are, and from any map in which it is unmapped no pass and no run of the loop maps
  it. Nothing is reported: the step returns the map, there is no error value.
\<close>

theorem gep_offset_assignment:
  assumes "distinct (state_ptr f # map iid (instructions f))"
  shows "(Inst g (GetElementPtr base (Some d)) \<in> set (instructions f) \<and>
          GetOffsets f base = Some ob \<longrightarrow>
            GetOffsets f g = Some (ucast (d + ucast ob)) \<and>
            (unat d + unat ob < 2 ^ 32 \<longrightarrow>
               (\<exists>off. GetOffsets f g = Some off \<and> unat off = unat ob + unat d)))
       \<and> (offset g = None \<and> offset base = Some ob \<longrightarrow>
            GetOffsets_inst (Inst g (GetElementPtr base (Some d))) (offset, made_progress) =
              (offset(g \<mapsto> ucast (d + ucast ob)), True))
       \<and> GetOffsets_inst (Inst g (GetElementPtr base None)) (offset, made_progress) =
            (offset, made_progress)
       \<and> (Inst g (GetElementPtr base None) \<in> set (instructions f) \<longrightarrow>
            GetOffsets f g = None \<and>
            (offset g = None \<longrightarrow>
               fst (GetOffsets_pass f offset) g = None \<and>
               fst (GetOffsets_loop f offset n) g = None))"
proof -
  have some: "GetOffsets f g = Some (ucast (d + ucast ob))"
    if "Inst g (GetElementPtr base (Some d)) \<in> set (instructions f)" "GetOffsets f base = Some ob"
    using assms that by (rule GetOffsets_gep_some)
  have none: "GetOffsets f g = None \<and>
      (offset g = None \<longrightarrow>
         fst (GetOffsets_pass f offset) g = None \<and> fst (GetOffsets_loop f offset n) g = None)"
    if g: "Inst g (GetElementPtr base None) \<in> set (instructions f)"
  proof -
    have u: "\<forall>i \<in> set (instructions f). iid i = g \<longrightarrow> kind i = GetElementPtr base None"
      using assms g by (auto dest: distinct_iid_kind)
    have "fst (GetOffsets_pass f offset) g = None" if "offset g = None"
      unfolding GetOffsets_pass_def using u that
      by (intro GetOffsets_fold_gep_none [where base = base]) simp_all
    then show ?thesis
      using GetOffsets_gep_none [OF assms g] loop_gep_none [OF u] by simp
  qed
  show ?thesis
    using some none
    by (auto simp: gep_sum_no_overflow GetOffsetFromBasePtr_def split: option.splits)
qed

text \<open>The witness: in \<open>gep_function\<close> the constant GEP 1 gets 0 + 8, the variable
  GEP 4 and the store through it stay unmapped.\<close>

theorem gep_offset_assignment_witness:
  "distinct (state_ptr gep_function # map iid (instructions gep_function)) \<and>
   Inst 1 (GetElementPtr 0 (Some 8)) \<in> set (instructions gep_function) \<and>
   GetOffsets gep_function 0 = Some 0 \<and>
   unat (8 :: 64 word) + unat (0 :: 32 word) < 2 ^ 32 \<and>
   GetOffsets gep_function 1 = Some 8 \<and>
   Inst 4 (GetElementPtr 0 None) \<in> set (instructions gep_function) \<and>
   GetOffsets gep_function 4 = None \<and>
   GetOffsets gep_function 5 = None"
proof -
  have h1: "distinct (state_ptr gep_function # map iid (instructions gep_function))"
    by (simp add: gep_function_def instructions_def)
  have h2: "Inst 1 (GetElementPtr 0 (Some 8)) \<in> set (instructions gep_function)"
    by (simp add: gep_function_def instructions_def)
  have h3: "GetOffsets gep_function 0 = Some 0"
    by (simp add: eval_offsets gep_function_def)
  have h4: "Inst 4 (GetElementPtr 0 None) \<in> set (instructions gep_function)"
    by (simp add: gep_function_def instructions_def)
  have h5: "GetOffsets gep_function 5 = None"
    by (simp add: eval_offsets gep_function_def)
  have h6: "unat (8 :: 64 word) + unat (0 :: 32 word) < 2 ^ 32" by simp
  have "GetOffsets gep_function 1 = Some (ucast ((8 :: 64 word) + ucast (0 :: 32 word)))"
    using gep_offset_assignment [OF h1, of 1 0 8 0] h2 h3 by blast
  then have c1: "GetOffsets gep_function 1 = Some 8" by simp
  have c2: "GetOffsets gep_function 4 = None"
    using gep_offset_assignment [OF h1, of 4 0] h4 by blast
  show ?thesis using h1 h2 h3 h4 h5 h6 c1 c2 by blast
qed

lemma card_unmapped_le: "card (unmapped f offset) \<le> length (instructions f)"
proof -
  have "card (unmapped f offset) \<le> card (iid ` set (instructions f))"
    by (rule card_mono) (auto simp: unmapped_def)
  also have "\<dots> \<le> card (set (instructions f))" by (rule card_image_le) simp
  also have "\<dots> \<le> length (instructions f)" by (rule card_length)
  finally show ?thesis .
qed

lemma card_dom_GetOffsets: "card (dom (GetOffsets f)) \<le> length (instructions f) + 1"
proof -
  have "dom (GetOffsets f) \<subseteq> insert (state_ptr f) (iid ` set (instructions f))"
    using loop_dom [of f "Map.empty(state_ptr f \<mapsto> 0)" 0] by (simp add: GetOffsets_def)
  then have "card (dom (GetOffsets f)) \<le> card (insert (state_ptr f) (iid ` set (instructions f)))"
    by (intro card_mono) simp_all
  also have "\<dots> \<le> Suc (card (iid ` set (instructions f)))"
    by (simp add: card_insert_if)
  also have "card (iid ` set (instructions f)) \<le> card (set (instructions f))"
    by (rule card_image_le) simp
  also have "card (set (instructions f)) \<le> length (instructions f)" by (rule card_length)
  finally show ?thesis by simp
qed

lemma loop_passes_unmapped:
  "snd (GetOffsets_loop f offset n) + card (unmapped f (fst (GetOffsets_loop f offset n)))
     \<le> n + card (unmapped f offset) + 1"
proof (induction f offset n rule: GetOffsets_loop.induct)
  case (1 f offset n)
  obtain offset' mp where p: "GetOffsets_pass f offset = (offset', mp)"
    by (cases "GetOffsets_pass f offset")
  show ?case
  proof (cases mp)
    case True
    then have "card (unmapped f offset') < card (unmapped f offset)"
      using p pass_progress_card [of offset' f offset] by simp
    moreover have "snd (GetOffsets_loop f offset' (Suc n)) +
        card (unmapped f (fst (GetOffsets_loop f offset' (Suc n))))
        \<le> Suc n + card (unmapped f offset') + 1"
      using 1 p True by simp
    ultimately show ?thesis
      using p True by (simp add: GetOffsets_loop.simps [of f offset n])
  next
    case False
    with p have "offset' = offset" by (simp add: pass_no_progress)
    with p False show ?thesis by (simp add: GetOffsets_loop.simps [of f offset n])
  qed
qed

lemma never_mapped_other:
  fixes f :: "'ty llvm_function"
  assumes "distinct (state_ptr f # map iid (instructions f))"
    and "Inst t (Other ops) \<in> set (instructions f)"
  shows "GetOffsets f t = None"
proof (cases "GetOffsets f t")
  case (Some off)
  then have "GetOffsets f (iid (Inst t (Other ops) :: 'ty inst)) = Some off" by simp
  with assms have "justified (GetOffsets f) (Inst t (Other ops) :: 'ty inst) off"
    by (rule GetOffsets_justified)
  then show ?thesis by (simp add: justified_def)
qed simp

lemma passes_with_unmapped:
  assumes "j \<in> set (instructions f)" and "GetOffsets f (iid j) = None"
  shows "snd (GetOffsets_loop f (Map.empty(state_ptr f \<mapsto> 0)) 0) \<le> length (instructions f)"
proof -
  let ?init = "Map.empty(state_ptr f \<mapsto> (0 :: 32 word))"
  have "iid j \<in> unmapped f (GetOffsets f)"
    using assms by (force simp: unmapped_def)
  then have "card (unmapped f (GetOffsets f)) \<ge> 1"
    using finite_unmapped [of f "GetOffsets f"] by (metis One_nat_def Suc_leI card_gt_0_iff empty_iff)
  moreover have "snd (GetOffsets_loop f ?init 0) + card (unmapped f (GetOffsets f))
      \<le> 0 + card (unmapped f ?init) + 1"
    unfolding GetOffsets_def by (rule loop_passes_unmapped)
  moreover have "card (unmapped f ?init) \<le> length (instructions f)" by (rule card_unmapped_le)
  ultimately show ?thesis by linarith
qed

lemma passes_with_terminator:
  fixes f :: "'ty llvm_function"
  assumes "distinct (state_ptr f # map iid (instructions f))"
    and "Inst t (Other ops) \<in> set (instructions f)"
  shows "snd (GetOffsets_loop f (Map.empty(state_ptr f \<mapsto> 0)) 0) \<le> length (instructions f)"
proof -
  have "GetOffsets f (iid (Inst t (Other ops) :: 'ty inst)) = None"
    using never_mapped_other [OF assms] by simp
  with assms(2) show ?thesis by (rule passes_with_unmapped)
qed

text \<open>
  Claim C8. The loop is a total function (its termination is proved above by the
  number of unmapped instructions, which every pass that makes progress strictly
  decreases). A pass either assigns a new offset, and then the loop goes on from the
  larger map, or it leaves the map as it is and is the last one. The final map has at
  most one entry more than the function has instructions. The number of passes,
  the last one that finds nothing included, is at most the number of instructions
  in every function in which some instruction is left without an offset; that is
  every function whose values have distinct identities and that has an instruction
  of kind \<open>Other\<close> (no GEP, bitcast, load, store, PHI or call), such as the
  terminator every block ends with. Without an instruction that is left without an
  offset the bound is the instruction count plus one.
\<close>

theorem propagation_pass_bound:
  "(distinct (state_ptr f # map iid (instructions f)) \<and>
      Inst t (Other ops) \<in> set (instructions f) \<longrightarrow>
        snd (GetOffsets_loop f (Map.empty(state_ptr f \<mapsto> 0)) 0) \<le> length (instructions f))
   \<and> (j \<in> set (instructions f) \<and> GetOffsets f (iid j) = None \<longrightarrow>
        snd (GetOffsets_loop f (Map.empty(state_ptr f \<mapsto> 0)) 0) \<le> length (instructions f))
   \<and> snd (GetOffsets_loop f (Map.empty(state_ptr f \<mapsto> 0)) 0) \<le> length (instructions f) + 1
   \<and> snd (GetOffsets_loop f offset n) \<le> n + card (unmapped f offset) + 1
   \<and> card (dom (GetOffsets f)) \<le> length (instructions f) + 1
   \<and> (GetOffsets_pass f offset = (offset', True) \<longrightarrow>
        unmapped f offset' \<subset> unmapped f offset \<and>
        GetOffsets_loop f offset n = GetOffsets_loop f offset' (Suc n))
   \<and> (GetOffsets_pass f offset = (offset', False) \<longrightarrow>
        offset' = offset \<and> GetOffsets_loop f offset n = (offset, Suc n))"
proof -
  let ?init = "Map.empty(state_ptr f \<mapsto> (0 :: 32 word))"
  have "snd (GetOffsets_loop f ?init 0) \<le> 0 + card (unmapped f ?init) + 1"
    by (rule loop_passes_bound)
  also have "\<dots> \<le> length (instructions f) + 1"
    using card_unmapped_le [of f ?init] by simp
  finally have a: "snd (GetOffsets_loop f ?init 0) \<le> length (instructions f) + 1" .
  have b: "GetOffsets_loop f offset n = GetOffsets_loop f offset' (Suc n)"
    if "GetOffsets_pass f offset = (offset', True)"
    using that by (simp add: GetOffsets_loop.simps [of f offset n])
  have c: "offset' = offset \<and> GetOffsets_loop f offset n = (offset, Suc n)"
    if "GetOffsets_pass f offset = (offset', False)"
    using that pass_no_progress [OF that] by (simp add: loop_at_fixpoint)
  have u: "snd (GetOffsets_loop f ?init 0) \<le> length (instructions f)"
    if "j \<in> set (instructions f)" "GetOffsets f (iid j) = None"
    using that by (rule passes_with_unmapped)
  have t: "snd (GetOffsets_loop f ?init 0) \<le> length (instructions f)"
    if "distinct (state_ptr f # map iid (instructions f))"
      "Inst t (Other ops) \<in> set (instructions f)"
    using that by (rule passes_with_terminator)
  show ?thesis
    using a b c u t loop_passes_bound [of f offset n] card_dom_GetOffsets [of f]
      pass_progress_unmapped [of f offset offset']
    by blast
qed

text \<open>The witness: \<open>load_and_return\<close> has two instructions and takes two
  passes.\<close>

theorem propagation_pass_bound_witness:
  "distinct (state_ptr load_and_return # map iid (instructions load_and_return)) \<and>
   Inst 2 (Other []) \<in> set (instructions load_and_return) \<and>
   GetOffsets_pass load_and_return (Map.empty(0 \<mapsto> 0)) = (Map.empty(0 \<mapsto> 0, 1 \<mapsto> 0), True) \<and>
   unmapped load_and_return (Map.empty(0 \<mapsto> 0, 1 \<mapsto> 0)) \<subset> unmapped load_and_return (Map.empty(0 \<mapsto> 0)) \<and>
   GetOffsets_pass load_and_return (Map.empty(0 \<mapsto> 0, 1 \<mapsto> 0)) = (Map.empty(0 \<mapsto> 0, 1 \<mapsto> 0), False) \<and>
   GetOffsets_loop load_and_return (Map.empty(0 \<mapsto> 0, 1 \<mapsto> 0)) 1 = (Map.empty(0 \<mapsto> 0, 1 \<mapsto> 0), 2) \<and>
   snd (GetOffsets_loop load_and_return (Map.empty(0 \<mapsto> 0)) 0) = 2 \<and>
   snd (GetOffsets_loop load_and_return (Map.empty(state_ptr load_and_return \<mapsto> 0)) 0)
     \<le> length (instructions load_and_return) \<and>
   length (instructions load_and_return) = 2"
proof -
  let ?m0 = "Map.empty(0 \<mapsto> 0) :: OffsetMap"
  let ?m1 = "Map.empty(0 \<mapsto> 0, 1 \<mapsto> 0) :: OffsetMap"
  have d: "distinct (state_ptr load_and_return # map iid (instructions load_and_return))"
    by (simp add: load_and_return_def instructions_def)
  have i2: "Inst 2 (Other []) \<in> set (instructions load_and_return)"
    by (simp add: load_and_return_def instructions_def)
  have h1: "GetOffsets_pass load_and_return ?m0 = (?m1, True)"
    by (simp add: GetOffsets_pass_def instructions_def load_and_return_def)
  have h2: "GetOffsets_pass load_and_return ?m1 = (?m1, False)"
    by (simp add: GetOffsets_pass_def instructions_def load_and_return_def)
  have t0: "snd (GetOffsets_loop load_and_return (Map.empty(state_ptr load_and_return \<mapsto> 0)) 0)
      \<le> length (instructions load_and_return)"
    using propagation_pass_bound [of load_and_return 2 "[]"] d i2 by blast
  have t1: "unmapped load_and_return ?m1 \<subset> unmapped load_and_return ?m0 \<and>
      GetOffsets_loop load_and_return ?m0 0 = GetOffsets_loop load_and_return ?m1 (Suc 0)"
    using propagation_pass_bound [of load_and_return _ _ _ ?m0 0 ?m1] h1 by blast
  have t2: "GetOffsets_loop load_and_return ?m1 (Suc 0) = (?m1, Suc (Suc 0))"
    using propagation_pass_bound [of load_and_return _ _ _ ?m1 "Suc 0" ?m1] h2 by blast
  have "length (instructions load_and_return) = 2"
    by (simp add: instructions_def load_and_return_def)
  then show ?thesis using d i2 h1 h2 t0 t1 t2 by (simp add: numeral_2_eq_2)
qed

section \<open>Properties of the block-local eliminator\<close>

lemma visit_unmapped:
  "m i = None \<Longrightarrow> visit L sz m (Inst i k) s = Inr (entered k s)"
  by (simp add: entered_def)

lemma visit_out_of_tables:
  "m i = Some off \<Longrightarrow> \<not> in_tables L off \<Longrightarrow> visit L sz m (Inst i k) s = Inl VectorIndexOutOfRange"
  by (auto simp: in_tables_def Let_def)

lemma visit_load:
  "m i = Some off \<Longrightarrow> in_tables L off \<Longrightarrow>
   visit L sz m (Inst i (Load ptr ty)) s =
     (if \<not> reg_of L off < RegSet_bits then Inl BitsetPositionOutOfRange
      else Inr ((pending_forward (load_forwarding s (reg_of L off)) ty i s)
                 \<lparr>live_on_entry := insert (reg_of L off) (live_on_entry s),
                  local_dead := local_dead s - {reg_of L off},
                  load_forwarding := (load_forwarding s)(reg_of L off \<mapsto> (i, ty))\<rparr>))"
  by (auto simp: in_tables_def reg_of_def is_call_def pending_forward_def forward_def Let_def
      split: option.splits)

lemma visit_store:
  "m i = Some off \<Longrightarrow> in_tables L off \<Longrightarrow>
   visit L sz m (Inst i (Store v ty ptr)) s =
     (if \<not> reg_of L off < RegSet_bits then Inl BitsetPositionOutOfRange
      else if reg_of L off \<in> local_dead s then
        Inr (s\<lparr>to_remove := insert i (to_remove s),
               load_forwarding := (load_forwarding s)(reg_of L off := None)\<rparr>)
      else if sz ty \<noteq> size_of_reg L off then
        Inr (s\<lparr>live_on_entry := insert (reg_of L off) (live_on_entry s),
               local_dead := local_dead s - {reg_of L off},
               load_forwarding := (load_forwarding s)(reg_of L off := None)\<rparr>)
      else
        Inr ((pending_forward (load_forwarding s (reg_of L off)) ty v s)
               \<lparr>live_on_entry := live_on_entry s - {reg_of L off},
                killed_in_block := insert (reg_of L off) (killed_in_block s),
                local_dead := insert (reg_of L off) (local_dead s),
                load_forwarding := (load_forwarding s)(reg_of L off := None)\<rparr>))"
  by (auto simp: in_tables_def reg_of_def size_of_reg_def is_call_def pending_forward_def
      forward_def Let_def split: option.splits)

lemma visit_no_access:
  "m i = Some off \<Longrightarrow> in_tables L off \<Longrightarrow> \<not> is_access k \<Longrightarrow>
   visit L sz m (Inst i k) s = Inr (entered k s)"
  by (cases k) (auto simp: in_tables_def is_access_def entered_def Let_def)

declare visit.simps [simp del]

lemma on_result_simps [simp]:
  "on_result g (Inl e) = Inl e"
  "on_result g (Inr s) = Inr (g s)"
  by (simp_all add: on_result_def)

lemma on_result_eq_Inl [simp]: "on_result g r = Inl e \<longleftrightarrow> r = Inl e"
  by (cases r) simp_all

lemma on_result_eq_Inr: "on_result g r = Inr y \<longleftrightarrow> (\<exists>s. r = Inr s \<and> y = g s)"
  by (cases r) auto

lemma shape_RAUW [simp]: "shape (RAUW_kind old new k) = shape k"
  by (cases k) (simp_all add: shape_def)

lemma sig_RAUW [simp]: "sig (RAUW_inst old new i) = sig i"
  by (simp add: sig_def RAUW_inst_def)

lemma skeleton_RAUW [simp]: "skeleton (replaceAllUsesWith old new bbs) = skeleton bbs"
  by (simp add: skeleton_def replaceAllUsesWith_def RAUW_block_def comp_def)

lemma analysis_simps [simp]:
  "live_on_entry (analysis s) = live_on_entry s"
  "killed_in_block (analysis s) = killed_in_block s"
  "local_dead (analysis s) = local_dead s"
  "load_forwarding (analysis s) = load_forwarding s"
  "to_remove (analysis s) = to_remove s"
  "cur (analysis s) = []"
  by (simp_all add: analysis_def)

lemma analysis_eq_iff:
  "analysis s = analysis t \<longleftrightarrow>
     live_on_entry s = live_on_entry t \<and> killed_in_block s = killed_in_block t \<and>
     local_dead s = local_dead t \<and> load_forwarding s = load_forwarding t \<and>
     to_remove s = to_remove t \<and> scan_state.more s = scan_state.more t"
  by (cases s; cases t) (auto simp: analysis_def)

lemma analysis_entered:
  "analysis s = analysis t \<Longrightarrow> analysis (entered k s) = analysis (entered k t)"
  by (auto simp: analysis_eq_iff entered_def call_reset_def)

lemma pending_forward_fields [simp]:
  "live_on_entry (pending_forward nx ty new s) = live_on_entry s"
  "killed_in_block (pending_forward nx ty new s) = killed_in_block s"
  "local_dead (pending_forward nx ty new s) = local_dead s"
  "load_forwarding (pending_forward nx ty new s) = load_forwarding s"
  "scan_state.more (pending_forward nx ty new s) = scan_state.more s"
  "to_remove (pending_forward nx ty new s) = forwarded nx ty \<union> to_remove s"
  by (auto simp: pending_forward_def forward_def forwarded_def split: option.splits)

lemma skeleton_pending_forward [simp]:
  "skeleton (cur (pending_forward nx ty new s)) = skeleton (cur s)"
  by (auto simp: pending_forward_def forward_def split: option.splits)

lemma sig_eq_iid: "sig i = sig j \<Longrightarrow> iid i = iid j"
  by (simp add: sig_def)

lemma sig_eq_cases:
  assumes "sig i = sig j"
  obtains
    (load) x ptr ptr' ty where "i = Inst x (Load ptr ty)" "j = Inst x (Load ptr' ty)"
  | (store) x v v' ptr ptr' ty where "i = Inst x (Store v ty ptr)" "j = Inst x (Store v' ty ptr')"
  | (call) x ops ops' where "i = Inst x (Call ops)" "j = Inst x (Call ops')"
  | (other) x k k' where "i = Inst x k" "j = Inst x k'" "\<not> is_access k" "\<not> is_access k'"
      "\<not> is_call k" "\<not> is_call k'"
proof -
  obtain x k where i: "i = Inst x k" by (cases i)
  obtain y k' where j: "j = Inst y k'" by (cases j)
  from assms have xy: "y = x" and sh: "shape k = shape k'" by (simp_all add: i j sig_def)
  show thesis
    using sh that i j xy
    by (cases k; cases k') (simp_all add: shape_def is_access_def is_call_def)
qed

lemma visit_analysis_cong:
  assumes "sig i = sig j" "analysis s = analysis t"
  shows "on_result analysis (visit L sz m i s) = on_result analysis (visit L sz m j t)"
proof -
  have eqs: "load_forwarding s = load_forwarding t" "live_on_entry s = live_on_entry t"
    "local_dead s = local_dead t" "killed_in_block s = killed_in_block t"
    "to_remove s = to_remove t" "scan_state.more s = scan_state.more t"
    using assms(2) by (simp_all add: analysis_eq_iff)
  have ent: "analysis (entered k s) = analysis (entered k' t)" if "is_call k = is_call k'" for k k'
    using that eqs by (simp add: analysis_eq_iff entered_def call_reset_def)
  from assms(1) show ?thesis
  proof (cases rule: sig_eq_cases)
    case (load x ptr ptr' ty)
    show ?thesis
    proof (cases "m x")
      case None
      then show ?thesis by (simp add: load visit_unmapped ent is_call_def)
    next
      case (Some off)
      show ?thesis
      proof (cases "in_tables L off")
        case False
        then show ?thesis using Some by (simp add: load visit_out_of_tables)
      next
        case True
        then show ?thesis using Some
          by (simp add: load visit_load analysis_eq_iff eqs)
      qed
    qed
  next
    case (store x v v' ptr ptr' ty)
    show ?thesis
    proof (cases "m x")
      case None
      then show ?thesis by (simp add: store visit_unmapped ent is_call_def)
    next
      case (Some off)
      show ?thesis
      proof (cases "in_tables L off")
        case False
        then show ?thesis using Some by (simp add: store visit_out_of_tables)
      next
        case True
        then show ?thesis using Some
          by (simp add: store visit_store analysis_eq_iff eqs)
      qed
    qed
  next
    case (call x ops ops')
    show ?thesis
    proof (cases "m x")
      case None
      then show ?thesis by (simp add: call visit_unmapped ent is_call_def)
    next
      case (Some off)
      show ?thesis
      proof (cases "in_tables L off")
        case False
        then show ?thesis using Some by (simp add: call visit_out_of_tables)
      next
        case True
        then show ?thesis using Some
          by (simp add: call visit_no_access is_access_def ent is_call_def)
      qed
    qed
  next
    case (other x k k')
    show ?thesis
    proof (cases "m x")
      case None
      then show ?thesis using other ent [of k k'] by (simp add: visit_unmapped)
    next
      case (Some off)
      show ?thesis
      proof (cases "in_tables L off")
        case False
        then show ?thesis using Some by (simp add: other visit_out_of_tables)
      next
        case True
        then show ?thesis using Some other ent [of k k']
          by (simp add: visit_no_access)
      qed
    qed
  qed
qed

lemma visit_Inr_cases [consumes 1, case_names skip load store_dead store_partial store_full]:
  assumes "visit L sz m i s = Inr s'"
  obtains
    (skip) "m (iid i) = None \<or> (\<exists>off. m (iid i) = Some off \<and> in_tables L off \<and> \<not> is_access (kind i))"
      "s' = entered (kind i) s"
  | (load) off ptr ty where "kind i = Load ptr ty" "m (iid i) = Some off"
      "in_tables L off" "reg_of L off < RegSet_bits"
      "s' = (pending_forward (load_forwarding s (reg_of L off)) ty (iid i) s)
                 \<lparr>live_on_entry := insert (reg_of L off) (live_on_entry s),
                  local_dead := local_dead s - {reg_of L off},
                  load_forwarding := (load_forwarding s)(reg_of L off \<mapsto> (iid i, ty))\<rparr>"
  | (store_dead) off v ty ptr where "kind i = Store v ty ptr" "m (iid i) = Some off"
      "in_tables L off" "reg_of L off < RegSet_bits" "reg_of L off \<in> local_dead s"
      "s' = s\<lparr>to_remove := insert (iid i) (to_remove s),
               load_forwarding := (load_forwarding s)(reg_of L off := None)\<rparr>"
  | (store_partial) off v ty ptr where "kind i = Store v ty ptr" "m (iid i) = Some off"
      "in_tables L off" "reg_of L off < RegSet_bits" "reg_of L off \<notin> local_dead s"
      "sz ty \<noteq> size_of_reg L off"
      "s' = s\<lparr>live_on_entry := insert (reg_of L off) (live_on_entry s),
               local_dead := local_dead s - {reg_of L off},
               load_forwarding := (load_forwarding s)(reg_of L off := None)\<rparr>"
  | (store_full) off v ty ptr where "kind i = Store v ty ptr" "m (iid i) = Some off"
      "in_tables L off" "reg_of L off < RegSet_bits" "reg_of L off \<notin> local_dead s"
      "sz ty = size_of_reg L off"
      "s' = (pending_forward (load_forwarding s (reg_of L off)) ty v s)
               \<lparr>live_on_entry := live_on_entry s - {reg_of L off},
                killed_in_block := insert (reg_of L off) (killed_in_block s),
                local_dead := insert (reg_of L off) (local_dead s),
                load_forwarding := (load_forwarding s)(reg_of L off := None)\<rparr>"
proof -
  obtain x k where i: "i = Inst x k" by (cases i)
  show thesis
  proof (cases "m x")
    case None
    with assms show ?thesis by (intro skip) (simp_all add: i visit_unmapped)
  next
    case (Some off)
    have it: "in_tables L off"
      using assms Some by (cases "in_tables L off") (simp_all add: i visit_out_of_tables)
    show ?thesis
    proof (cases "is_access k")
      case False
      with assms Some it show ?thesis by (intro skip) (simp_all add: i visit_no_access)
    next
      case True
      then consider (ld) ptr ty where "k = Load ptr ty" | (st) v ty ptr where "k = Store v ty ptr"
        by (cases k) (simp_all add: is_access_def)
      then show ?thesis
      proof cases
        case ld
        from assms Some it have "reg_of L off < RegSet_bits"
          by (simp add: i ld visit_load split: if_splits)
        with assms Some it show ?thesis
          by (intro load [of ptr ty off]) (simp_all add: i ld visit_load)
      next
        case st
        from assms Some it have r: "reg_of L off < RegSet_bits"
          by (simp add: i st visit_store split: if_splits)
        show ?thesis
        proof (cases "reg_of L off \<in> local_dead s")
          case True
          with assms Some it r show ?thesis
            by (intro store_dead [of v ty ptr off]) (simp_all add: i st visit_store)
        next
          case False
          show ?thesis
          proof (cases "sz ty = size_of_reg L off")
            case True
            with assms Some it r False show ?thesis
              by (intro store_full [of v ty ptr off]) (simp_all add: i st visit_store)
          next
            case ne: False
            with assms Some it r False show ?thesis
              by (intro store_partial [of v ty ptr off]) (simp_all add: i st visit_store)
          qed
        qed
      qed
    qed
  qed
qed

lemma entered_fields [simp]:
  "cur (entered k s) = cur s"
  "to_remove (entered k s) = to_remove s"
  by (simp_all add: entered_def call_reset_def)

lemma visit_skeleton:
  assumes "visit L sz m i s = Inr s'"
  shows "skeleton (cur s') = skeleton (cur s)"
  using assms by (cases rule: visit_Inr_cases) simp_all

lemma visit_all_append:
  "visit_all L sz m (xs @ ys) s =
     (case visit_all L sz m xs s of Inl e \<Rightarrow> Inl e | Inr s' \<Rightarrow> visit_all L sz m ys s')"
  by (induction xs arbitrary: s) (simp_all split: sum.splits)

lemma visit_all_single [simp]: "visit_all L sz m [x] s = visit L sz m x s"
  by (simp split: sum.splits)

lemma visit_all_cong:
  "map sig xs = map sig ys \<Longrightarrow> analysis s = analysis t \<Longrightarrow>
   on_result analysis (visit_all L sz m xs s) = on_result analysis (visit_all L sz m ys t)"
proof (induction xs arbitrary: ys s t)
  case Nil
  then show ?case by simp
next
  case (Cons x xs)
  then obtain y ys' where ys: "ys = y # ys'" "sig x = sig y" "map sig xs = map sig ys'"
    by (cases ys) auto
  have c: "on_result analysis (visit L sz m x s) = on_result analysis (visit L sz m y t)"
    using ys(2) Cons.prems(2) by (rule visit_analysis_cong)
  show ?case
  proof (cases "visit L sz m x s")
    case (Inl e)
    with c have "visit L sz m y t = Inl e" by (cases "visit L sz m y t") simp_all
    with Inl show ?thesis by (simp add: ys)
  next
    case (Inr s')
    with c obtain t' where t': "visit L sz m y t = Inr t'" "analysis s' = analysis t'"
      by (cases "visit L sz m y t") simp_all
    show ?thesis
      using Cons.IH [OF ys(3) t'(2)] Inr t'(1) by (simp add: ys)
  qed
qed

lemma skeleton_nth:
  assumes "skeleton bbs' = skeleton bbs" "b < length bbs"
  shows "block_id (bbs' ! b) = block_id (bbs ! b)"
    and "map sig (insts (bbs' ! b)) = map sig (insts (bbs ! b))"
    and "length bbs' = length bbs"
proof -
  have l: "length bbs' = length bbs"
    using assms(1) by (metis length_map skeleton_def)
  then show "length bbs' = length bbs" .
  have "skeleton bbs' ! b = skeleton bbs ! b" using assms(1) by simp
  then have "(block_id (bbs' ! b), map sig (insts (bbs' ! b))) =
             (block_id (bbs ! b), map sig (insts (bbs ! b)))"
    using assms(2) l by (simp add: skeleton_def)
  then show "block_id (bbs' ! b) = block_id (bbs ! b)"
    and "map sig (insts (bbs' ! b)) = map sig (insts (bbs ! b))" by simp_all
qed

lemma scan_skeleton:
  "scan L sz m b k s0 = Inr s \<Longrightarrow> skeleton (cur s) = skeleton (cur s0)"
proof (induction k arbitrary: s)
  case 0
  then show ?case by simp
next
  case (Suc k)
  then obtain s' where s': "scan L sz m b k s0 = Inr s'"
    and v: "visit L sz m (insts (cur s' ! b) ! (length (insts (cur s' ! b)) - Suc k)) s' = Inr s"
    by (auto split: sum.splits)
  show ?case using visit_skeleton [OF v] Suc.IH [OF s'] by simp
qed

lemma scan_analysis:
  assumes "b < length (cur s0)" "k \<le> length (insts (cur s0 ! b))"
  shows "on_result analysis (scan L sz m b k s0) =
         on_result analysis (visit_all L sz m (take k (rev (insts (cur s0 ! b)))) s0)"
  using assms(2)
proof (induction k)
  case 0
  show ?case by simp
next
  case (Suc k)
  let ?blk = "insts (cur s0 ! b)"
  let ?x = "rev ?blk ! k"
  have k: "k < length ?blk" using Suc.prems by simp
  have tk: "take (Suc k) (rev ?blk) = take k (rev ?blk) @ [?x]"
    using k by (simp add: take_Suc_conv_app_nth)
  have IH: "on_result analysis (scan L sz m b k s0) =
            on_result analysis (visit_all L sz m (take k (rev ?blk)) s0)"
    by (rule Suc.IH) (use Suc.prems in simp)
  show ?case
  proof (cases "scan L sz m b k s0")
    case (Inl e)
    with IH have "visit_all L sz m (take k (rev ?blk)) s0 = Inl e"
      by (cases "visit_all L sz m (take k (rev ?blk)) s0") simp_all
    with Inl show ?thesis by (simp add: tk visit_all_append)
  next
    case (Inr s')
    with IH obtain t where t: "visit_all L sz m (take k (rev ?blk)) s0 = Inr t"
      "analysis s' = analysis t"
      by (cases "visit_all L sz m (take k (rev ?blk)) s0") simp_all
    have sk: "skeleton (cur s') = skeleton (cur s0)" using Inr by (rule scan_skeleton)
    have m: "map sig (insts (cur s' ! b)) = map sig ?blk"
      using sk assms(1) by (rule skeleton_nth)
    then have len: "length (insts (cur s' ! b)) = length ?blk"
      by (metis length_map)
    have "sig (insts (cur s' ! b) ! (length ?blk - Suc k)) = sig (?blk ! (length ?blk - Suc k))"
      using m k len by (metis diff_Suc_less length_greater_0_conv list.size(3) not_less_zero nth_map)
    also have "?blk ! (length ?blk - Suc k) = ?x" using k by (simp add: rev_nth)
    finally have sg: "sig (insts (cur s' ! b) ! (length (insts (cur s' ! b)) - Suc k)) = sig ?x"
      by (simp add: len)
    have "on_result analysis (visit L sz m (insts (cur s' ! b) ! (length (insts (cur s' ! b)) - Suc k)) s')
        = on_result analysis (visit L sz m ?x t)"
      using sg t(2) by (rule visit_analysis_cong)
    then show ?thesis using Inr t(1) by (simp add: tk visit_all_append split: sum.splits)
  qed
qed

lemma is_access_simps [simp]:
  "is_access (Load ptr ty)" "is_access (Store v ty ptr)"
  "\<not> is_access (Call ops)" "\<not> is_access (GetElementPtr base acc)" "\<not> is_access (BitCast base)"
  "\<not> is_access (PHI p vs)" "\<not> is_access (Other ops)"
  by (simp_all add: is_access_def)

lemma is_call_simps [simp]:
  "\<not> is_call (Load ptr ty)" "\<not> is_call (Store v ty ptr)"
  "is_call (Call ops)" "\<not> is_call (GetElementPtr base acc)" "\<not> is_call (BitCast base)"
  "\<not> is_call (PHI p vs)" "\<not> is_call (Other ops)"
  by (simp_all add: is_call_def)

lemma visit_to_remove_mono:
  assumes "visit L sz m i s = Inr s'"
  shows "to_remove s \<subseteq> to_remove s'"
  using assms by (cases rule: visit_Inr_cases) auto

lemma visit_all_to_remove_mono:
  "visit_all L sz m xs s = Inr s' \<Longrightarrow> to_remove s \<subseteq> to_remove s'"
proof (induction xs arbitrary: s)
  case Nil
  then show ?case by simp
next
  case (Cons x xs)
  then obtain s1 where s1: "visit L sz m x s = Inr s1" "visit_all L sz m xs s1 = Inr s'"
    by (auto split: sum.splits)
  show ?case using visit_to_remove_mono [OF s1(1)] Cons.IH [OF s1(2)] by blast
qed

lemma visit_quiet_frame:
  assumes "visit L sz m i s = Inr s'" "quiet L m R i"
  shows "(R \<in> local_dead s' \<longleftrightarrow> R \<in> local_dead s) \<and>
         (R \<in> live_on_entry s' \<longleftrightarrow> R \<in> live_on_entry s) \<and>
         (R \<in> killed_in_block s' \<longleftrightarrow> R \<in> killed_in_block s) \<and>
         load_forwarding s' R = load_forwarding s R"
  using assms
proof (cases rule: visit_Inr_cases)
  case skip
  then show ?thesis using assms(2) by (simp add: quiet_def entered_def)
next
  case (load off ptr ty)
  then have "reg_of L off \<noteq> R"
    using assms(2) by (simp add: quiet_def no_access_to_def)
  then show ?thesis using load by auto
next
  case (store_dead off v ty ptr)
  then have "reg_of L off \<noteq> R"
    using assms(2) by (simp add: quiet_def no_access_to_def)
  then show ?thesis using store_dead by auto
next
  case (store_partial off v ty ptr)
  then have "reg_of L off \<noteq> R"
    using assms(2) by (simp add: quiet_def no_access_to_def)
  then show ?thesis using store_partial by auto
next
  case (store_full off v ty ptr)
  then have "reg_of L off \<noteq> R"
    using assms(2) by (simp add: quiet_def no_access_to_def)
  then show ?thesis using store_full by auto
qed

lemma visit_all_quiet_frame:
  "visit_all L sz m xs s = Inr s' \<Longrightarrow> \<forall>i \<in> set xs. quiet L m R i \<Longrightarrow>
   (R \<in> local_dead s' \<longleftrightarrow> R \<in> local_dead s) \<and>
   (R \<in> live_on_entry s' \<longleftrightarrow> R \<in> live_on_entry s) \<and>
   (R \<in> killed_in_block s' \<longleftrightarrow> R \<in> killed_in_block s) \<and>
   load_forwarding s' R = load_forwarding s R"
proof (induction xs arbitrary: s)
  case Nil
  then show ?case by simp
next
  case (Cons x xs)
  then obtain s1 where s1: "visit L sz m x s = Inr s1" "visit_all L sz m xs s1 = Inr s'"
    by (auto split: sum.splits)
  have "quiet L m R x" using Cons.prems(2) by simp
  from visit_quiet_frame [OF s1(1) this] Cons.IH [OF s1(2)] Cons.prems(2)
  show ?case by simp
qed

lemma visit_not_live:
  assumes "visit L sz m i s = Inr s'" "no_access_to L m R i" "R \<notin> live_on_entry s"
  shows "R \<notin> live_on_entry s'"
  using assms
proof (cases rule: visit_Inr_cases)
  case skip
  then show ?thesis using assms(3) by (simp add: entered_def call_reset_def)
next
  case (load off ptr ty)
  then have "reg_of L off \<noteq> R"
    using assms(2) by (simp add: no_access_to_def)
  then show ?thesis using load assms(3) by auto
next
  case (store_dead off v ty ptr)
  then show ?thesis using assms(3) by auto
next
  case (store_partial off v ty ptr)
  then have "reg_of L off \<noteq> R"
    using assms(2) by (simp add: no_access_to_def)
  then show ?thesis using store_partial assms(3) by auto
next
  case (store_full off v ty ptr)
  then show ?thesis using assms(3) by auto
qed

lemma visit_all_not_live:
  "visit_all L sz m xs s = Inr s' \<Longrightarrow> \<forall>i \<in> set xs. no_access_to L m R i \<Longrightarrow>
   R \<notin> live_on_entry s \<Longrightarrow> R \<notin> live_on_entry s'"
proof (induction xs arbitrary: s)
  case Nil
  then show ?case by simp
next
  case (Cons x xs)
  then obtain s1 where s1: "visit L sz m x s = Inr s1" "visit_all L sz m xs s1 = Inr s'"
    by (auto split: sum.splits)
  have "no_access_to L m R x" using Cons.prems(2) by simp
  then have "R \<notin> live_on_entry s1"
    using Cons.prems(3) by (rule visit_not_live [OF s1(1)])
  then show ?case using Cons.IH [OF s1(2)] Cons.prems(2) by simp
qed

lemma visit_dead_not_live:
  assumes "visit L sz m i s = Inr s'" "local_dead s \<inter> live_on_entry s = {}"
  shows "local_dead s' \<inter> live_on_entry s' = {}"
  using assms by (cases rule: visit_Inr_cases) (auto simp: entered_def call_reset_def)

lemma visit_all_dead_not_live:
  "visit_all L sz m xs s = Inr s' \<Longrightarrow> local_dead s \<inter> live_on_entry s = {} \<Longrightarrow>
   local_dead s' \<inter> live_on_entry s' = {}"
proof (induction xs arbitrary: s)
  case Nil
  then show ?case by simp
next
  case (Cons x xs)
  then obtain s1 where s1: "visit L sz m x s = Inr s1" "visit_all L sz m xs s1 = Inr s'"
    by (auto split: sum.splits)
  show ?case using Cons.IH [OF s1(2)] visit_dead_not_live [OF s1(1) Cons.prems(2)] by simp
qed

lemma related_simps [simp]:
  "related s t (Inl e) r' \<longleftrightarrow> r' = Inl e"
  "related s t (Inr s') (Inr t') \<longleftrightarrow> same_decisions s' t' \<and> same_additions s t s' t'"
  "\<not> related s t (Inr s') (Inl e)"
  by (simp_all add: related_def)

lemma same_additions_refl [simp]: "same_additions s t s t"
  by (auto simp: same_additions_def)

lemma same_additions_union:
  "to_remove s' = F \<union> to_remove s \<Longrightarrow> to_remove t' = F \<union> to_remove t \<Longrightarrow>
   same_additions s t s' t'"
  unfolding same_additions_def by (rule exI [of _ F]) auto

lemma same_additions_insert:
  "to_remove s' = insert x (to_remove s) \<Longrightarrow> to_remove t' = insert x (to_remove t) \<Longrightarrow>
   same_additions s t s' t'"
  unfolding same_additions_def by (rule exI [of _ "{x}"]) auto

lemma same_additions_same:
  "to_remove s' = to_remove s \<Longrightarrow> to_remove t' = to_remove t \<Longrightarrow> same_additions s t s' t'"
  unfolding same_additions_def by (rule exI [of _ "{}"]) auto

lemma same_additions_trans:
  "same_additions s t s1 t1 \<Longrightarrow> same_additions s1 t1 s' t' \<Longrightarrow> same_additions s t s' t'"
  unfolding same_additions_def
proof -
  assume "\<exists>D. to_remove s1 = to_remove s \<union> D \<and> to_remove t1 = to_remove t \<union> D"
    and "\<exists>D. to_remove s' = to_remove s1 \<union> D \<and> to_remove t' = to_remove t1 \<union> D"
  then obtain D1 D2 where
    "to_remove s1 = to_remove s \<union> D1" "to_remove t1 = to_remove t \<union> D1"
    "to_remove s' = to_remove s1 \<union> D2" "to_remove t' = to_remove t1 \<union> D2"
    by blast
  then have "to_remove s' = to_remove s \<union> (D1 \<union> D2) \<and> to_remove t' = to_remove t \<union> (D1 \<union> D2)"
    by auto
  then show "\<exists>D. to_remove s' = to_remove s \<union> D \<and> to_remove t' = to_remove t \<union> D" ..
qed

lemma same_decisions_entered:
  "same_decisions s t \<Longrightarrow> is_call k = is_call k' \<Longrightarrow>
   same_decisions (entered k s) (entered k' t)"
  by (simp add: same_decisions_def entered_def call_reset_def)

lemma visit_related:
  assumes "sig i = sig j" "same_decisions s t"
  shows "related s t (visit L sz m i s) (visit L sz m j t)"
proof -
  have eqs: "load_forwarding s = load_forwarding t" "live_on_entry s = live_on_entry t"
    "local_dead s = local_dead t" "killed_in_block s = killed_in_block t"
    using assms(2) by (simp_all add: same_decisions_def)
  have skip: "related s t (Inr (entered k s)) (Inr (entered k' t))" if "is_call k = is_call k'" for k k'
    using same_decisions_entered [OF assms(2) that] by (simp add: same_additions_same)
  from assms(1) show ?thesis
  proof (cases rule: sig_eq_cases)
    case (load x ptr ptr' ty)
    show ?thesis
    proof (cases "m x")
      case None
      then show ?thesis using skip [of "Load ptr ty" "Load ptr' ty"]
        by (simp add: load visit_unmapped)
    next
      case (Some off)
      show ?thesis
      proof (cases "in_tables L off")
        case False
        then show ?thesis using Some by (simp add: load visit_out_of_tables)
      next
        case True
        then show ?thesis using Some
          by (simp add: load visit_load eqs same_decisions_def same_additions_union)
      qed
    qed
  next
    case (store x v v' ptr ptr' ty)
    show ?thesis
    proof (cases "m x")
      case None
      then show ?thesis using skip [of "Store v ty ptr" "Store v' ty ptr'"]
        by (simp add: store visit_unmapped)
    next
      case (Some off)
      show ?thesis
      proof (cases "in_tables L off")
        case False
        then show ?thesis using Some by (simp add: store visit_out_of_tables)
      next
        case True
        then show ?thesis using Some
          by (simp add: store visit_store eqs same_decisions_def same_additions_union
              same_additions_insert same_additions_same)
      qed
    qed
  next
    case (call x ops ops')
    show ?thesis
    proof (cases "m x")
      case None
      then show ?thesis using skip [of "Call ops" "Call ops'"]
        by (simp add: call visit_unmapped)
    next
      case (Some off)
      show ?thesis
      proof (cases "in_tables L off")
        case False
        then show ?thesis using Some by (simp add: call visit_out_of_tables)
      next
        case True
        then show ?thesis using Some skip [of "Call ops" "Call ops'"]
          by (simp add: call visit_no_access)
      qed
    qed
  next
    case (other x k k')
    show ?thesis
    proof (cases "m x")
      case None
      then show ?thesis using other skip [of k k']
        by (simp add: visit_unmapped)
    next
      case (Some off)
      show ?thesis
      proof (cases "in_tables L off")
        case False
        then show ?thesis using Some by (simp add: other visit_out_of_tables)
      next
        case True
        then show ?thesis using Some other skip [of k k']
          by (simp add: visit_no_access)
      qed
    qed
  qed
qed

lemma visit_all_related:
  "map sig xs = map sig ys \<Longrightarrow> same_decisions s t \<Longrightarrow>
   related s t (visit_all L sz m xs s) (visit_all L sz m ys t)"
proof (induction xs arbitrary: ys s t)
  case Nil
  then show ?case by simp
next
  case (Cons x xs)
  then obtain y ys' where ys: "ys = y # ys'" "sig x = sig y" "map sig xs = map sig ys'"
    by (cases ys) auto
  have c: "related s t (visit L sz m x s) (visit L sz m y t)"
    using ys(2) Cons.prems(2) by (rule visit_related)
  show ?case
  proof (cases "visit L sz m x s")
    case (Inl e)
    with c show ?thesis by (simp add: ys)
  next
    case (Inr s1)
    with c obtain t1 where t1: "visit L sz m y t = Inr t1" "same_decisions s1 t1"
      "same_additions s t s1 t1"
      by (cases "visit L sz m y t") simp_all
    have r: "related s1 t1 (visit_all L sz m xs s1) (visit_all L sz m ys' t1)"
      using ys(3) t1(2) by (rule Cons.IH)
    show ?thesis
    proof (cases "visit_all L sz m xs s1")
      case (Inl e)
      with r Inr t1 show ?thesis by (simp add: ys)
    next
      case s': (Inr s')
      with r obtain t' where t': "visit_all L sz m ys' t1 = Inr t'" "same_decisions s' t'"
        "same_additions s1 t1 s' t'"
        by (cases "visit_all L sz m ys' t1") simp_all
      show ?thesis
        using Inr s' t1 t' same_additions_trans [OF t1(3) t'(3)] by (simp add: ys)
    qed
  qed
qed

lemma scan_init_fields [simp]:
  "live_on_entry (scan_init bbs) = {}" "killed_in_block (scan_init bbs) = {}"
  "local_dead (scan_init bbs) = {}" "load_forwarding (scan_init bbs) = (\<lambda>r. None)"
  "to_remove (scan_init bbs) = {}" "cur (scan_init bbs) = bbs"
  by (simp_all add: scan_init_def)

lemma call_reset_fields [simp]:
  "live_on_entry (call_reset s) = {}" "killed_in_block (call_reset s) = {}"
  "local_dead (call_reset s) = {}" "load_forwarding (call_reset s) = (\<lambda>r. None)"
  "to_remove (call_reset s) = to_remove s" "cur (call_reset s) = cur s"
  by (simp_all add: call_reset_def)

lemma analysis_eqD:
  assumes "analysis s = analysis t"
  shows "live_on_entry s = live_on_entry t" "killed_in_block s = killed_in_block t"
    "local_dead s = local_dead t" "load_forwarding s = load_forwarding t"
    "to_remove s = to_remove t"
  using assms by (simp_all add: analysis_eq_iff)

lemma scan_visit_all:
  assumes "b < length bbs" "k \<le> length (insts (bbs ! b))"
  shows "on_result analysis (scan L sz m b k (scan_init bbs)) =
         on_result analysis (visit_all L sz m (take k (rev (insts (bbs ! b)))) (scan_init bbs))"
  using scan_analysis [of b "scan_init bbs" k L sz m] assms by simp

lemma scan_Inr_visit_all:
  assumes "b < length bbs" "k \<le> length (insts (bbs ! b))"
    and "scan L sz m b k (scan_init bbs) = Inr s"
  obtains t where "visit_all L sz m (take k (rev (insts (bbs ! b)))) (scan_init bbs) = Inr t"
    "analysis s = analysis t"
proof -
  have "on_result analysis (visit_all L sz m (take k (rev (insts (bbs ! b)))) (scan_init bbs))
        = Inr (analysis s)"
    using scan_visit_all [OF assms(1,2), of L sz m] assms(3) by simp
  then show thesis using that by (auto simp: on_result_eq_Inr)
qed

lemma visit_all_Inr_scan:
  assumes "b < length bbs" "k \<le> length (insts (bbs ! b))"
    and "visit_all L sz m (take k (rev (insts (bbs ! b)))) (scan_init bbs) = Inr t"
  obtains s where "scan L sz m b k (scan_init bbs) = Inr s" "analysis s = analysis t"
proof -
  have "on_result analysis (scan L sz m b k (scan_init bbs)) = Inr (analysis t)"
    using scan_visit_all [OF assms(1,2), of L sz m] assms(3) by simp
  then show thesis using that by (auto simp: on_result_eq_Inr)
qed

lemma visit_all_append_Inr:
  assumes "visit_all L sz m (xs @ ys) s = Inr s'"
  obtains s1 where "visit_all L sz m xs s = Inr s1" "visit_all L sz m ys s1 = Inr s'"
  using assms by (auto simp: visit_all_append split: sum.splits)

lemma visit_all_Cons_Inr:
  assumes "visit_all L sz m (x # xs) s = Inr s'"
  obtains s1 where "visit L sz m x s = Inr s1" "visit_all L sz m xs s1 = Inr s'"
  using assms by (auto split: sum.splits)

lemma visit_call_Inr:
  assumes "visit L sz m (Inst c (Call ops)) s = Inr s'"
  shows "s' = call_reset s"
  using assms by (cases rule: visit_Inr_cases) (simp_all add: entered_def)

lemma same_decisions_reset: "same_decisions (call_reset s) (scan_init bbs)"
  by (simp add: same_decisions_def)

lemma visit_all_after_call:
  assumes "visit_all L sz m (rev (pre @ Inst c (Call ops) # post)) (scan_init bbs) = Inr tF"
  obtains s1 tP where
    "visit_all L sz m (rev post) (scan_init bbs) = Inr s1"
    "visit_all L sz m (rev post @ [Inst c (Call ops)]) (scan_init bbs) = Inr (call_reset s1)"
    "visit_all L sz m (rev pre) (scan_init bbs') = Inr tP"
    "same_decisions tF tP" "to_remove tF = to_remove s1 \<union> to_remove tP"
proof -
  have r: "rev (pre @ Inst c (Call ops) # post) = rev post @ Inst c (Call ops) # rev pre"
    by simp
  from assms obtain s1 s2 where s1: "visit_all L sz m (rev post) (scan_init bbs) = Inr s1"
    and s2: "visit L sz m (Inst c (Call ops)) s1 = Inr s2"
    and tF: "visit_all L sz m (rev pre) s2 = Inr tF"
    unfolding r by (auto elim!: visit_all_append_Inr visit_all_Cons_Inr)
  have s2': "s2 = call_reset s1" using s2 by (rule visit_call_Inr)
  have "related s2 (scan_init bbs') (visit_all L sz m (rev pre) s2)
          (visit_all L sz m (rev pre) (scan_init bbs'))"
    by (rule visit_all_related) (simp_all add: s2' same_decisions_reset)
  then obtain tP where tP: "visit_all L sz m (rev pre) (scan_init bbs') = Inr tP"
    "same_decisions tF tP" "same_additions s2 (scan_init bbs') tF tP"
    using tF by (cases "visit_all L sz m (rev pre) (scan_init bbs')") simp_all
  from tP(3) have "to_remove tF = to_remove s1 \<union> to_remove tP"
    by (auto simp: same_additions_def s2')
  moreover have "visit_all L sz m (rev post @ [Inst c (Call ops)]) (scan_init bbs) = Inr (call_reset s1)"
    using s1 s2 by (simp add: visit_all_append s2')
  ultimately show thesis using that s1 tP by blast
qed

lemma cut_block_simps [simp]:
  "b < length (blocks f) \<Longrightarrow> insts (blocks (cut_block f b pre) ! b) = pre"
  "b < length (blocks f) \<Longrightarrow> block_id (blocks (cut_block f b pre) ! b) = block_id (blocks f ! b)"
  "length (blocks (cut_block f b pre)) = length (blocks f)"
  by (simp_all add: cut_block_def)

lemma scan_Inr_prefix:
  "scan L sz m b k' s0 = Inr sF \<Longrightarrow> k \<le> k' \<Longrightarrow> \<exists>s. scan L sz m b k s0 = Inr s"
proof (induction k' arbitrary: sF)
  case 0
  then show ?case by simp
next
  case (Suc k')
  then obtain s' where s': "scan L sz m b k' s0 = Inr s'" by (auto split: sum.splits)
  show ?case
  proof (cases "k = Suc k'")
    case True
    then show ?thesis using Suc.prems(1) by blast
  next
    case False
    then have "k \<le> k'" using Suc.prems(2) by simp
    then show ?thesis using Suc.IH [OF s'] by simp
  qed
qed

lemma scan_step_sig:
  assumes "b < length (cur s0)" "k < length (insts (cur s0 ! b))"
    and "scan L sz m b k s0 = Inr s1"
  shows "sig (insts (cur s1 ! b) ! (length (insts (cur s1 ! b)) - Suc k)) =
         sig (rev (insts (cur s0 ! b)) ! k)"
proof -
  let ?blk = "insts (cur s0 ! b)"
  have sk: "skeleton (cur s1) = skeleton (cur s0)" using assms(3) by (rule scan_skeleton)
  have m: "map sig (insts (cur s1 ! b)) = map sig ?blk"
    using sk assms(1) by (rule skeleton_nth)
  then have len: "length (insts (cur s1 ! b)) = length ?blk"
    by (metis length_map)
  have idx: "length ?blk - Suc k < length ?blk" using assms(2) by simp
  have "sig (insts (cur s1 ! b) ! (length ?blk - Suc k)) = map sig (insts (cur s1 ! b)) ! (length ?blk - Suc k)"
    using idx len by simp
  also have "\<dots> = sig (?blk ! (length ?blk - Suc k))"
    using idx by (simp add: m)
  also have "?blk ! (length ?blk - Suc k) = rev ?blk ! k" using assms(2) by (simp add: rev_nth)
  finally show ?thesis by (simp add: len)
qed

lemma sig_call:
  assumes "sig j = sig (Inst c (Call ops))"
  obtains ops' where "j = Inst c (Call ops')"
  using assms by (cases rule: sig_eq_cases) (simp_all add: is_access_def is_call_def)

lemma rev_block_nth:
  "rev (pre @ x # post) ! length post = x"
  by (simp add: nth_append)

lemma take_rev_block:
  "take (length post) (rev (pre @ x # post)) = rev post"
  "take (Suc (length post)) (rev (pre @ x # post)) = rev post @ [x]"
  by simp_all

lemma scan_block_id:
  assumes "b < length bbs" "scan L sz m b k (scan_init bbs) = Inr s"
  shows "block_id (cur s ! b) = block_id (bbs ! b)"
proof -
  have "skeleton (cur s) = skeleton bbs" using scan_skeleton [OF assms(2)] by simp
  then show ?thesis using assms(1) by (rule skeleton_nth)
qed

lemma LocalOptimizeBlock_Inr:
  assumes "LocalOptimizeBlock L sz m b (f, g) = Inr (f', g')"
  obtains s where "scan L sz m b (length (insts (blocks f ! b))) (scan_init (blocks f)) = Inr s"
    "f' = f\<lparr>blocks := (cur s)[b := eraseFromParent (to_remove s) (cur s ! b)]\<rparr>"
    "g' = g(block_id (cur s ! b) \<mapsto> BlockState.truncate s)"
  using assms by (auto simp: LocalOptimizeBlock_def split: sum.splits)

lemma truncate_eq:
  "live_on_entry s = live_on_entry t \<Longrightarrow> killed_in_block s = killed_in_block t \<Longrightarrow>
   BlockState.truncate s = BlockState.truncate t"
  by (simp add: BlockState.truncate_def)

lemma scan_after_call:
  assumes b: "b < length (blocks f)"
    and blk: "insts (blocks f ! b) = pre @ Inst c (Call ops) # post"
    and sF: "scan L sz m b (length (insts (blocks f ! b))) (scan_init (blocks f)) = Inr sF"
  shows "\<exists>s1 sP.
      scan L sz m b (length post) (scan_init (blocks f)) = Inr s1 \<and>
      scan L sz m b (Suc (length post)) (scan_init (blocks f)) = Inr (call_reset s1) \<and>
      scan L sz m b (length pre) (scan_init (blocks (cut_block f b pre))) = Inr sP \<and>
      to_remove sF = to_remove s1 \<union> to_remove sP \<and>
      live_on_entry sF = live_on_entry sP \<and> killed_in_block sF = killed_in_block sP \<and>
      local_dead sF = local_dead sP \<and> load_forwarding sF = load_forwarding sP"
proof -
  let ?bbs = "blocks f"
  let ?call = "Inst c (Call ops) :: 'a inst"
  have len: "length (insts (?bbs ! b)) = length pre + Suc (length post)" by (simp add: blk)
  obtain tF where tF: "visit_all L sz m (rev (pre @ ?call # post)) (scan_init ?bbs) = Inr tF"
    and atF: "analysis sF = analysis tF"
    using scan_Inr_visit_all [OF b _ sF] by (auto simp: blk)
  obtain t1 tP where t1: "visit_all L sz m (rev post) (scan_init ?bbs) = Inr t1"
    and tP: "visit_all L sz m (rev pre) (scan_init (blocks (cut_block f b pre))) = Inr tP"
    and dec: "same_decisions tF tP" and rem: "to_remove tF = to_remove t1 \<union> to_remove tP"
    using visit_all_after_call [OF tF, of "blocks (cut_block f b pre)"] by blast
  have "length post \<le> length (insts (?bbs ! b))" by (simp add: len)
  moreover have "visit_all L sz m (take (length post) (rev (insts (?bbs ! b)))) (scan_init ?bbs) = Inr t1"
    using t1 by (simp add: blk)
  ultimately obtain s1 where s1: "scan L sz m b (length post) (scan_init ?bbs) = Inr s1"
    and as1: "analysis s1 = analysis t1"
    using visit_all_Inr_scan [OF b] by blast
  obtain s2 where s2: "scan L sz m b (Suc (length post)) (scan_init ?bbs) = Inr s2"
    using scan_Inr_prefix [OF sF, of "Suc (length post)"] by (auto simp: len)
  let ?j = "insts (cur s1 ! b) ! (length (insts (cur s1 ! b)) - Suc (length post))"
  have "sig ?j = sig (rev (insts (?bbs ! b)) ! length post)"
    using scan_step_sig [of b "scan_init ?bbs" "length post" L sz m s1] b s1 by (simp add: len)
  also have "rev (insts (?bbs ! b)) ! length post = ?call"
    unfolding blk by (rule rev_block_nth)
  finally have "sig ?j = sig ?call" .
  then obtain ops' where j: "?j = Inst c (Call ops')" by (rule sig_call)
  have "visit L sz m ?j s1 = Inr s2" using s1 s2 by simp
  then have s2': "s2 = call_reset s1" unfolding j by (rule visit_call_Inr)
  have bc: "b < length (blocks (cut_block f b pre))" using b by simp
  have "visit_all L sz m (take (length pre) (rev (insts (blocks (cut_block f b pre) ! b))))
          (scan_init (blocks (cut_block f b pre))) = Inr tP"
    using tP b by simp
  moreover have "length pre \<le> length (insts (blocks (cut_block f b pre) ! b))" using b by simp
  ultimately obtain sP where
    sP: "scan L sz m b (length pre) (scan_init (blocks (cut_block f b pre))) = Inr sP"
    and asP: "analysis sP = analysis tP"
    using visit_all_Inr_scan [OF bc] by blast
  have "to_remove sF = to_remove s1 \<union> to_remove sP"
    using rem analysis_eqD(5) [OF atF] analysis_eqD(5) [OF as1] analysis_eqD(5) [OF asP] by simp
  moreover have "live_on_entry sF = live_on_entry sP" "killed_in_block sF = killed_in_block sP"
    "local_dead sF = local_dead sP" "load_forwarding sF = load_forwarding sP"
    using dec analysis_eqD [OF atF] analysis_eqD [OF asP] by (simp_all add: same_decisions_def)
  ultimately show ?thesis using s1 s2 s2' sP by blast
qed

lemma replicate_numeral_step: "replicate (numeral n) x = x # replicate (pred_numeral n) x"
  by (simp add: numeral_eq_Suc)

lemma regs2_tables: "regs2 = \<lparr>gByteOffsetToRegOffset = [0, 0, 0, 0, 0, 0, 0, 0, 1],
        gByteOffsetToBeginOffset = [0, 0, 0, 0, 0, 0, 0, 0, 8],
        gByteOffsetToRegSize = [8, 8, 8, 8, 8, 8, 8, 8, 1]\<rparr>"
  by (simp add: regs2_def InitDeadRegisterEliminator_def no_tables_def replicate_numeral_step)

lemmas eval_scan =
  LocalOptimizeBlock_def scan_init_def visit.simps is_call_def call_reset_def forward_def
  replaceAllUsesWith_def RAUW_block_def RAUW_inst_def replace_use_def eraseFromParent_def
  RegSet_bits_def BlockState.truncate_def Let_def

lemma subreg_offsets:
  "GetOffsets subreg_block 1 = Some 0" "GetOffsets subreg_block 2 = Some 1"
  "GetOffsets subreg_block 3 = Some 8" "GetOffsets subreg_block 4 = Some 0"
  "GetOffsets subreg_block 5 = Some 1" "GetOffsets subreg_block 6 = Some 8"
  by (simp_all add: eval_offsets subreg_block_def)

lemma subreg_result_for:
  assumes "m 1 = Some 0" "m 2 = Some 1" "m 3 = Some 8" "m 4 = Some 0" "m 5 = Some 1" "m 6 = Some 8"
  shows "LocalOptimizeBlock regs2 store_size_of m 0 (subreg_block, Map.empty) =
     Inr (\<lparr>state_ptr = 0, blocks = [BasicBlock 0
            [Inst 1 (BitCast 0),
             Inst 2 (GetElementPtr 1 (Some 1)),
             Inst 3 (GetElementPtr 1 (Some 8)),
             Inst 4 (Load 1 (IntegerTy 8)),
             Inst 6 (Store 4 (IntegerTy 8) 3)]]\<rparr>,
          Map.empty(0 \<mapsto> \<lparr>live_on_entry = {0}, killed_in_block = {1}\<rparr>))"
  using assms by (simp add: eval_scan regs2_tables subreg_block_def)

lemma subreg_result:
  "LocalOptimizeBlock regs2 store_size_of (GetOffsets subreg_block) 0 (subreg_block, Map.empty) =
     Inr (\<lparr>state_ptr = 0, blocks = [BasicBlock 0
            [Inst 1 (BitCast 0),
             Inst 2 (GetElementPtr 1 (Some 1)),
             Inst 3 (GetElementPtr 1 (Some 8)),
             Inst 4 (Load 1 (IntegerTy 8)),
             Inst 6 (Store 4 (IntegerTy 8) 3)]]\<rparr>,
          Map.empty(0 \<mapsto> \<lparr>live_on_entry = {0}, killed_in_block = {1}\<rparr>))"
  by (rule subreg_result_for) (rule subreg_offsets)+

lemma forwarded_empty_cur:
  "forwarded nx ty = {} \<Longrightarrow> cur (pending_forward nx ty new s) = cur s"
  by (auto simp: forwarded_def pending_forward_def split: option.splits if_splits)

lemma visit_nothing_removed:
  assumes "visit L sz m i s = Inr s'" "to_remove s' = {}"
  shows "cur s' = cur s"
  using assms by (cases rule: visit_Inr_cases) (simp_all add: forwarded_empty_cur)

lemma scan_to_remove_mono:
  "scan L sz m b k s0 = Inr s \<Longrightarrow> to_remove s0 \<subseteq> to_remove s"
proof (induction k arbitrary: s)
  case 0
  then show ?case by simp
next
  case (Suc k)
  then obtain s' where s': "scan L sz m b k s0 = Inr s'"
    and v: "visit L sz m (insts (cur s' ! b) ! (length (insts (cur s' ! b)) - Suc k)) s' = Inr s"
    by (auto split: sum.splits)
  show ?case using visit_to_remove_mono [OF v] Suc.IH [OF s'] by blast
qed

lemma scan_nothing_removed:
  "scan L sz m b k s0 = Inr s \<Longrightarrow> to_remove s = {} \<Longrightarrow> cur s = cur s0"
proof (induction k arbitrary: s)
  case 0
  then show ?case by simp
next
  case (Suc k)
  then obtain s' where s': "scan L sz m b k s0 = Inr s'"
    and v: "visit L sz m (insts (cur s' ! b) ! (length (insts (cur s' ! b)) - Suc k)) s' = Inr s"
    by (auto split: sum.splits)
  have "to_remove s' = {}" using visit_to_remove_mono [OF v] Suc.prems(2) by simp
  then have "cur s' = cur s0" using s' by (intro Suc.IH)
  then show ?case using visit_nothing_removed [OF v Suc.prems(2)] by simp
qed

lemma visit_load_fresh:
  assumes "visit L sz m (Inst d (Load ptr ty)) s = Inr s'" "load_forwarding s = (\<lambda>r. None)"
  shows "to_remove s' = to_remove s"
  using assms by (cases rule: visit_Inr_cases) (simp_all add: forwarded_def)

lemma eraseFromParent_nothing [simp]: "eraseFromParent {} bb = bb"
  by (cases bb) (simp add: eraseFromParent_def)

lemma load_call_load_unchanged:
  assumes b: "b < length (blocks f)"
    and blk: "insts (blocks f ! b) = [Inst a (Load pa ta), Inst c (Call ops), Inst d (Load pd td)]"
    and res: "LocalOptimizeBlock L sz m b (f, g) = Inr (f', g')"
  shows "f' = f"
proof -
  from res obtain sF where
    sF: "scan L sz m b (length (insts (blocks f ! b))) (scan_init (blocks f)) = Inr sF"
    and f': "f' = f\<lparr>blocks := (cur sF)[b := eraseFromParent (to_remove sF) (cur sF ! b)]\<rparr>"
    by (rule LocalOptimizeBlock_Inr)
  have blk': "insts (blocks f ! b) = [Inst a (Load pa ta)] @ Inst c (Call ops) # [Inst d (Load pd td)]"
    by (simp add: blk)
  obtain tF where tF: "visit_all L sz m (rev ([Inst a (Load pa ta)] @ Inst c (Call ops) # [Inst d (Load pd td)]))
      (scan_init (blocks f)) = Inr tF"
    and atF: "analysis sF = analysis tF"
    using scan_Inr_visit_all [OF b _ sF] by (auto simp: blk)
  obtain t1 tP where t1: "visit_all L sz m (rev [Inst d (Load pd td)]) (scan_init (blocks f)) = Inr t1"
    and tP: "visit_all L sz m (rev [Inst a (Load pa ta)]) (scan_init (blocks f)) = Inr tP"
    and rem: "to_remove tF = to_remove t1 \<union> to_remove tP"
    using visit_all_after_call [OF tF, of "blocks f"] by blast
  from t1 have "visit L sz m (Inst d (Load pd td)) (scan_init (blocks f)) = Inr t1"
    by (simp split: sum.splits)
  then have "to_remove t1 = {}" using visit_load_fresh [of L sz m d pd td "scan_init (blocks f)" t1]
    by simp
  moreover from tP have "visit L sz m (Inst a (Load pa ta)) (scan_init (blocks f)) = Inr tP"
    by (simp split: sum.splits)
  then have "to_remove tP = {}"
    using visit_load_fresh [of L sz m a pa ta "scan_init (blocks f)" tP] by simp
  ultimately have e: "to_remove sF = {}" using rem analysis_eqD(5) [OF atF] by simp
  then have "cur sF = blocks f" using scan_nothing_removed [OF sF] by simp
  then show ?thesis by (simp add: f' e)
qed

lemma block_state_after_call:
  assumes b: "b < length (blocks f)"
    and blk: "insts (blocks f ! b) = pre @ Inst c (Call ops) # post"
    and res: "LocalOptimizeBlock L sz m b (f, g) = Inr (f', g')"
  shows "\<exists>f'' g'' bs.
      LocalOptimizeBlock L sz m b (cut_block f b pre, g) = Inr (f'', g'') \<and>
      g' (block_id (blocks f ! b)) = Some bs \<and> g'' (block_id (blocks f ! b)) = Some bs"
proof -
  from res obtain sF where
    sF: "scan L sz m b (length (insts (blocks f ! b))) (scan_init (blocks f)) = Inr sF"
    and g': "g' = g(block_id (cur sF ! b) \<mapsto> BlockState.truncate sF)"
    by (rule LocalOptimizeBlock_Inr)
  from scan_after_call [OF b blk sF] obtain sP where
    sP: "scan L sz m b (length pre) (scan_init (blocks (cut_block f b pre))) = Inr sP"
    and eq: "live_on_entry sF = live_on_entry sP" "killed_in_block sF = killed_in_block sP"
    by blast
  have bc: "b < length (blocks (cut_block f b pre))" using b by simp
  have idF: "block_id (cur sF ! b) = block_id (blocks f ! b)"
    using b sF by (rule scan_block_id)
  have idP: "block_id (cur sP ! b) = block_id (blocks f ! b)"
    using scan_block_id [OF bc sP] b by simp
  have "LocalOptimizeBlock L sz m b (cut_block f b pre, g) =
      Inr ((cut_block f b pre)\<lparr>blocks := (cur sP)[b := eraseFromParent (to_remove sP) (cur sP ! b)]\<rparr>,
           g(block_id (blocks f ! b) \<mapsto> BlockState.truncate sP))"
    using sP b by (simp add: LocalOptimizeBlock_def idP)
  moreover have "BlockState.truncate sF = BlockState.truncate sP" using eq by (rule truncate_eq)
  ultimately show ?thesis by (simp add: g' idF)
qed

text \<open>
  Claim C5. A call is a barrier for the scan. The iteration that visits a call, when
  it returns, leaves \<^verbatim>\<open>live_on_entry\<close>, \<^verbatim>\<open>killed_in_block\<close>, \<^verbatim>\<open>local_dead\<close> and
  \<^verbatim>\<open>load_forwarding\<close> empty and changes nothing else (an unmapped call always
  returns). In a block \<open>pre @ call # post\<close> whose scan returns, the state right after
  the call is the cleared one, and the scan ends as the scan of \<open>pre\<close> alone would:
  the same four tables, and as marked instructions those marked while scanning
  \<open>post\<close> together with those the scan of \<open>pre\<close> alone marks (every forwarded load is
  marked). So nothing seen after the call removes or forwards an access before it.
  A block that is a load, a call and a load is returned unchanged.
\<close>

theorem call_is_a_barrier:
  "(visit L sz m (Inst c (Call ops)) s = Inr s' \<longrightarrow>
      live_on_entry s' = {} \<and> killed_in_block s' = {} \<and> local_dead s' = {} \<and>
      load_forwarding s' = (\<lambda>r. None) \<and> to_remove s' = to_remove s \<and> cur s' = cur s)
   \<and> (m c = None \<longrightarrow> visit L sz m (Inst c (Call ops)) s = Inr (call_reset s))
   \<and> (b < length (blocks f) \<and> insts (blocks f ! b) = pre @ Inst c (Call ops) # post \<and>
       scan L sz m b (length (insts (blocks f ! b))) (scan_init (blocks f)) = Inr sF \<longrightarrow>
       (\<exists>s1 sP.
          scan L sz m b (length post) (scan_init (blocks f)) = Inr s1 \<and>
          scan L sz m b (Suc (length post)) (scan_init (blocks f)) = Inr (call_reset s1) \<and>
          scan L sz m b (length pre) (scan_init (blocks (cut_block f b pre))) = Inr sP \<and>
          to_remove sF = to_remove s1 \<union> to_remove sP \<and>
          live_on_entry sF = live_on_entry sP \<and> killed_in_block sF = killed_in_block sP \<and>
          local_dead sF = local_dead sP \<and> load_forwarding sF = load_forwarding sP))
   \<and> (b < length (blocks f) \<and>
       insts (blocks f ! b) = [Inst a (Load pa ta), Inst c (Call ops), Inst d (Load pd td)] \<and>
       LocalOptimizeBlock L sz m b (f, g) = Inr (f', g') \<longrightarrow> f' = f)"
proof -
  have 1: "live_on_entry s' = {} \<and> killed_in_block s' = {} \<and> local_dead s' = {} \<and>
      load_forwarding s' = (\<lambda>r. None) \<and> to_remove s' = to_remove s \<and> cur s' = cur s"
    if "visit L sz m (Inst c (Call ops)) s = Inr s'"
    using visit_call_Inr [OF that] by simp
  have 2: "visit L sz m (Inst c (Call ops)) s = Inr (call_reset s)" if "m c = None"
    using that by (simp add: visit_unmapped entered_def)
  show ?thesis
    using 1 2 scan_after_call [of b f pre c ops post L sz m sF]
      load_call_load_unchanged [of b f a pa ta c ops d pd td L sz m g f' g']
    by blast
qed

lemma load_call_load_offsets:
  "GetOffsets load_call_load 1 = Some 0" "GetOffsets load_call_load 2 = None"
  "GetOffsets load_call_load 3 = Some 0"
  by (simp_all add: eval_offsets load_call_load_def)

lemma load_call_load_result_for:
  assumes "m 1 = Some 0" "m 2 = None" "m 3 = Some 0"
  shows "LocalOptimizeBlock regs2 store_size_of m 0 (load_call_load, Map.empty) =
     Inr (load_call_load, Map.empty(0 \<mapsto> \<lparr>live_on_entry = {0}, killed_in_block = {}\<rparr>))"
  using assms by (simp add: eval_scan regs2_tables load_call_load_def)

text \<open>The witness: \<open>load_call_load\<close>; both loads of register 0 stay.\<close>

theorem call_is_a_barrier_witness:
  "(0::nat) < length (blocks load_call_load) \<and>
   insts (blocks load_call_load ! 0) =
     [Inst 1 (Load 0 (IntegerTy 64)), Inst 2 (Call [1]), Inst 3 (Load 0 (IntegerTy 64))] \<and>
   GetOffsets load_call_load 2 = None \<and>
   visit regs2 store_size_of (GetOffsets load_call_load) (Inst 2 (Call [1]))
     (scan_init (blocks load_call_load)) = Inr (call_reset (scan_init (blocks load_call_load))) \<and>
   LocalOptimizeBlock regs2 store_size_of (GetOffsets load_call_load) 0 (load_call_load, Map.empty) =
     Inr (load_call_load, Map.empty(0 \<mapsto> \<lparr>live_on_entry = {0}, killed_in_block = {}\<rparr>))"
proof -
  have h1: "(0::nat) < length (blocks load_call_load)" by (simp add: load_call_load_def)
  have h2: "insts (blocks load_call_load ! 0) =
     [Inst 1 (Load 0 (IntegerTy 64)), Inst 2 (Call [1]), Inst 3 (Load 0 (IntegerTy 64))]"
    by (simp add: load_call_load_def)
  have h3: "GetOffsets load_call_load 2 = None" by (rule load_call_load_offsets)
  have h4: "LocalOptimizeBlock regs2 store_size_of (GetOffsets load_call_load) 0 (load_call_load, Map.empty) =
     Inr (load_call_load, Map.empty(0 \<mapsto> \<lparr>live_on_entry = {0}, killed_in_block = {}\<rparr>))"
    by (rule load_call_load_result_for) (rule load_call_load_offsets)+
  have "visit regs2 store_size_of (GetOffsets load_call_load) (Inst 2 (Call [1]))
     (scan_init (blocks load_call_load)) = Inr (call_reset (scan_init (blocks load_call_load)))"
    using call_is_a_barrier [of regs2 store_size_of "GetOffsets load_call_load" 2 "[1]"
        "scan_init (blocks load_call_load)"] h3 by blast
  then show ?thesis using h1 h2 h3 h4 by blast
qed

text \<open>
  Claim C10. When a block contains a call and \<^verbatim>\<open>LocalOptimizeBlock\<close> returns, the
  block state it stores under the block's identity is the one it stores for the block
  cut down to the instructions before that call. This holds for every call of the
  block, so also for the first: what the accesses at or after it contributed is gone.
\<close>

theorem block_state_before_call:
  assumes "b < length (blocks f)"
    and "insts (blocks f ! b) = pre @ Inst c (Call ops) # post"
    and "LocalOptimizeBlock L sz m b (f, g) = Inr (f', g')"
  shows "\<exists>f'' g'' bs.
      LocalOptimizeBlock L sz m b (cut_block f b pre, g) = Inr (f'', g'') \<and>
      g' (block_id (blocks f ! b)) = Some bs \<and> g'' (block_id (blocks f ! b)) = Some bs"
  using assms by (rule block_state_after_call)

lemma store_call_load_offsets:
  "GetOffsets store_call_load 1 = Some 0" "GetOffsets store_call_load 2 = None"
  "GetOffsets store_call_load 3 = Some 0"
  by (simp_all add: eval_offsets store_call_load_def)

lemma store_call_load_result_for:
  assumes "m 1 = Some 0" "m 2 = None" "m 3 = Some 0"
  shows "LocalOptimizeBlock regs2 store_size_of m 0 (store_call_load, Map.empty) =
     Inr (store_call_load, Map.empty(0 \<mapsto> \<lparr>live_on_entry = {}, killed_in_block = {0}\<rparr>))"
  using assms by (simp add: eval_scan regs2_tables store_call_load_def)

text \<open>The witness: in \<open>store_call_load\<close> the load after the call leaves no
  trace; the stored state is that of the store alone.\<close>

theorem block_state_before_call_witness:
  "(0::nat) < length (blocks store_call_load) \<and>
   insts (blocks store_call_load ! 0) =
     [Inst 1 (Store 9 (IntegerTy 64) 0)] @ Inst 2 (Call []) # [Inst 3 (Load 0 (IntegerTy 64))] \<and>
   LocalOptimizeBlock regs2 store_size_of (GetOffsets store_call_load) 0 (store_call_load, Map.empty) =
     Inr (store_call_load, Map.empty(0 \<mapsto> \<lparr>live_on_entry = {}, killed_in_block = {0}\<rparr>)) \<and>
   (\<exists>f'' g'' bs.
      LocalOptimizeBlock regs2 store_size_of (GetOffsets store_call_load) 0
        (cut_block store_call_load 0 [Inst 1 (Store 9 (IntegerTy 64) 0)], Map.empty) = Inr (f'', g'') \<and>
      (Map.empty(0 \<mapsto> \<lparr>live_on_entry = {}, killed_in_block = {0}\<rparr>))
        (block_id (blocks store_call_load ! 0)) = Some bs \<and>
      g'' (block_id (blocks store_call_load ! 0)) = Some bs)"
proof -
  have h1: "(0::nat) < length (blocks store_call_load)" by (simp add: store_call_load_def)
  have h2: "insts (blocks store_call_load ! 0) =
     [Inst 1 (Store 9 (IntegerTy 64) 0)] @ Inst 2 (Call []) # [Inst 3 (Load 0 (IntegerTy 64))]"
    by (simp add: store_call_load_def)
  have h3: "LocalOptimizeBlock regs2 store_size_of (GetOffsets store_call_load) 0 (store_call_load, Map.empty) =
     Inr (store_call_load, Map.empty(0 \<mapsto> \<lparr>live_on_entry = {}, killed_in_block = {0}\<rparr>))"
    by (rule store_call_load_result_for) (rule store_call_load_offsets)+
  show ?thesis
    using h1 h2 h3 block_state_before_call [OF h1 h2 h3] by blast
qed

lemma visit_store_makes_dead:
  assumes "visit L sz m (Inst q (Store v ty ptr)) s = Inr s'" "m q = Some off"
    "sz ty = size_of_reg L off"
  shows "reg_of L off \<in> local_dead s'"
  using assms by (cases rule: visit_Inr_cases) auto

lemma visit_dead_store:
  assumes "visit L sz m (Inst p (Store v ty ptr)) s = Inr s'" "m p = Some off"
    "reg_of L off \<in> local_dead s"
  shows "to_remove s' = insert p (to_remove s) \<and> live_on_entry s' = live_on_entry s \<and>
         killed_in_block s' = killed_in_block s \<and> local_dead s' = local_dead s"
  using assms by (cases rule: visit_Inr_cases) auto

lemma rev_two_marks:
  "rev (pre @ x # mid @ y # post) = (rev post @ y # rev mid) @ x # rev pre"
  by simp

lemma visit_all_split_Inr:
  assumes "visit_all L sz m (xs @ x # ys) s = Inr s'"
  obtains s1 s2 where "visit_all L sz m xs s = Inr s1" "visit L sz m x s1 = Inr s2"
    "visit_all L sz m ys s2 = Inr s'"
proof -
  from assms obtain s1 where 1: "visit_all L sz m xs s = Inr s1"
    and r: "visit_all L sz m (x # ys) s1 = Inr s'"
    by (rule visit_all_append_Inr)
  from r obtain s2 where "visit L sz m x s1 = Inr s2" "visit_all L sz m ys s2 = Inr s'"
    by (rule visit_all_Cons_Inr)
  with 1 show thesis by (rule that)
qed

lemma iid_filter_image:
  "iid ` set (filter (\<lambda>i. iid i \<notin> T) xs) = iid ` set xs - T"
  by auto

lemma visit_all_store_before_full_store:
  assumes run: "visit_all L sz m (rev (pre @ Inst p (Store v ty ptr) # mid @
                   Inst q (Store v' ty' ptr') # post)) s0 = Inr tF"
    and p: "m p = Some off" and q: "m q = Some off'"
    and R: "reg_of L off' = reg_of L off"
    and full: "sz ty' = size_of_reg L off'"
    and mid: "\<forall>i \<in> set mid. quiet L m (reg_of L off) i"
  shows "p \<in> to_remove tF"
    and "local_dead s0 \<inter> live_on_entry s0 = {} \<Longrightarrow>
         \<forall>i \<in> set pre. no_access_to L m (reg_of L off) i \<Longrightarrow>
         reg_of L off \<notin> live_on_entry tF"
proof -
  let ?R = "reg_of L off"
  from run have "visit_all L sz m ((rev post @ Inst q (Store v' ty' ptr') # rev mid) @
      Inst p (Store v ty ptr) # rev pre) s0 = Inr tF"
    by (simp only: rev_two_marks)
  then obtain t3 t4 where
    t3: "visit_all L sz m (rev post @ Inst q (Store v' ty' ptr') # rev mid) s0 = Inr t3"
    and t4: "visit L sz m (Inst p (Store v ty ptr)) t3 = Inr t4"
    and tF: "visit_all L sz m (rev pre) t4 = Inr tF"
    by (rule visit_all_split_Inr)
  from t3 obtain t1 t2 where
    t1: "visit_all L sz m (rev post) s0 = Inr t1"
    and t2: "visit L sz m (Inst q (Store v' ty' ptr')) t1 = Inr t2"
    and t3': "visit_all L sz m (rev mid) t2 = Inr t3"
    by (rule visit_all_split_Inr)
  have "?R \<in> local_dead t2" using visit_store_makes_dead [OF t2 q full] R by simp
  moreover have "\<forall>i \<in> set (rev mid). quiet L m ?R i" using mid by simp
  ultimately have d3: "?R \<in> local_dead t3"
    using visit_all_quiet_frame [OF t3'] by blast
  note e = visit_dead_store [OF t4 p d3]
  then have "p \<in> to_remove t4" by simp
  then show "p \<in> to_remove tF" using visit_all_to_remove_mono [OF tF] by blast
  assume disj: "local_dead s0 \<inter> live_on_entry s0 = {}"
    and pre: "\<forall>i \<in> set pre. no_access_to L m ?R i"
  have "local_dead t3 \<inter> live_on_entry t3 = {}"
    using t3 disj by (rule visit_all_dead_not_live)
  then have "?R \<notin> live_on_entry t3" using d3 by blast
  then have "?R \<notin> live_on_entry t4" using e by simp
  moreover have "\<forall>i \<in> set (rev pre). no_access_to L m ?R i" using pre by simp
  ultimately show "?R \<notin> live_on_entry tF"
    using visit_all_not_live [OF tF] by blast
qed

lemma LocalOptimizeBlock_erased:
  assumes "b < length (blocks f)"
    and "scan L sz m b k (scan_init (blocks f)) = Inr s"
    and "f' = f\<lparr>blocks := (cur s)[b := eraseFromParent (to_remove s) (cur s ! b)]\<rparr>"
  shows "iid ` set (insts (blocks f' ! b)) = iid ` set (insts (blocks f ! b)) - to_remove s"
proof -
  have sk: "skeleton (cur s) = skeleton (blocks f)" using scan_skeleton [OF assms(2)] by simp
  have len: "length (cur s) = length (blocks f)" using sk assms(1) by (rule skeleton_nth)
  have "map sig (insts (cur s ! b)) = map sig (insts (blocks f ! b))"
    using sk assms(1) by (rule skeleton_nth)
  then have "map iid (map sig (insts (cur s ! b))) = map iid (map sig (insts (blocks f ! b)))"
    by simp
  then have "map iid (insts (cur s ! b)) = map iid (insts (blocks f ! b))"
    by (simp add: sig_def comp_def)
  then have ids: "iid ` set (insts (cur s ! b)) = iid ` set (insts (blocks f ! b))"
    by (metis set_map)
  have "insts (blocks f' ! b) = filter (\<lambda>i. iid i \<notin> to_remove s) (insts (cur s ! b))"
    using assms(1) len by (simp add: assms(3) eraseFromParent_def)
  then show ?thesis using ids by (simp only: iid_filter_image)
qed

lemma store_before_full_store_removed:
  assumes b: "b < length (blocks f)"
    and blk: "insts (blocks f ! b) =
                pre @ Inst p (Store v ty ptr) # mid @ Inst q (Store v' ty' ptr') # post"
    and p: "m p = Some off" and q: "m q = Some off'"
    and R: "reg_of L off' = reg_of L off"
    and full: "sz ty' = size_of_reg L off'"
    and mid: "\<forall>i \<in> set mid. quiet L m (reg_of L off) i"
    and res: "LocalOptimizeBlock L sz m b (f, g) = Inr (f', g')"
  shows "p \<notin> iid ` set (insts (blocks f' ! b))"
    and "\<forall>i \<in> set pre. no_access_to L m (reg_of L off) i \<Longrightarrow>
         \<exists>bs. g' (block_id (blocks f ! b)) = Some bs \<and> reg_of L off \<notin> live_on_entry bs"
proof -
  from res obtain sF where
    sF: "scan L sz m b (length (insts (blocks f ! b))) (scan_init (blocks f)) = Inr sF"
    and f': "f' = f\<lparr>blocks := (cur sF)[b := eraseFromParent (to_remove sF) (cur sF ! b)]\<rparr>"
    and g': "g' = g(block_id (cur sF ! b) \<mapsto> BlockState.truncate sF)"
    by (rule LocalOptimizeBlock_Inr)
  obtain tF where tF: "visit_all L sz m (rev (pre @ Inst p (Store v ty ptr) # mid @
                   Inst q (Store v' ty' ptr') # post)) (scan_init (blocks f)) = Inr tF"
    and atF: "analysis sF = analysis tF"
    using scan_Inr_visit_all [OF b _ sF] by (auto simp: blk)
  have "p \<in> to_remove tF"
    using tF p q R full mid by (rule visit_all_store_before_full_store)
  then have "p \<in> to_remove sF" using analysis_eqD(5) [OF atF] by simp
  then show "p \<notin> iid ` set (insts (blocks f' ! b))"
    using LocalOptimizeBlock_erased [OF b sF f'] by simp
  assume pre: "\<forall>i \<in> set pre. no_access_to L m (reg_of L off) i"
  have "reg_of L off \<notin> live_on_entry tF"
    using visit_all_store_before_full_store(2) [OF tF p q R full mid _ pre] by simp
  then have "reg_of L off \<notin> live_on_entry sF" using analysis_eqD(1) [OF atF] by simp
  moreover have "block_id (cur sF ! b) = block_id (blocks f ! b)"
    using b sF by (rule scan_block_id)
  ultimately show "\<exists>bs. g' (block_id (blocks f ! b)) = Some bs \<and> reg_of L off \<notin> live_on_entry bs"
    by (simp add: g' BlockState.truncate_def)
qed

text \<open>
  Claim C2, as amended. The branch for a partial store comes second: a mapped store
  narrower than its register marks the register live on entry (and is not marked
  for removal by that iteration) only when the register is not in \<^verbatim>\<open>local_dead\<close>
  at that point of the reverse scan. When it is, the store is marked for removal and
  the liveness is left alone. So in a block where a store to register \<open>R\<close>, of
  whatever width, is followed by a full-width store to \<open>R\<close>, with no call and no
  mapped load or store of \<open>R\<close> between them, the earlier store is erased; and if
  nothing before it in the block is a mapped load or store of \<open>R\<close>, the stored
  block state does not have \<open>R\<close> live on entry.
\<close>

theorem narrow_store_liveness:
  "(m p = Some off \<and> in_tables L off \<and> reg_of L off < RegSet_bits \<and>
      reg_of L off \<notin> local_dead s \<and> sz ty \<noteq> size_of_reg L off \<longrightarrow>
      visit L sz m (Inst p (Store v ty ptr)) s =
        Inr (s\<lparr>live_on_entry := insert (reg_of L off) (live_on_entry s),
               local_dead := local_dead s - {reg_of L off},
               load_forwarding := (load_forwarding s)(reg_of L off := None)\<rparr>))
   \<and> (m p = Some off \<and> in_tables L off \<and> reg_of L off < RegSet_bits \<and>
      reg_of L off \<in> local_dead s \<longrightarrow>
      visit L sz m (Inst p (Store v ty ptr)) s =
        Inr (s\<lparr>to_remove := insert p (to_remove s),
               load_forwarding := (load_forwarding s)(reg_of L off := None)\<rparr>))
   \<and> (b < length (blocks f) \<and>
      insts (blocks f ! b) = pre @ Inst p (Store v ty ptr) # mid @ Inst q (Store v' ty' ptr') # post \<and>
      m p = Some off \<and> m q = Some off' \<and> reg_of L off' = reg_of L off \<and>
      sz ty' = size_of_reg L off' \<and> (\<forall>i \<in> set mid. quiet L m (reg_of L off) i) \<and>
      LocalOptimizeBlock L sz m b (f, g) = Inr (f', g') \<longrightarrow>
      p \<notin> iid ` set (insts (blocks f' ! b)) \<and>
      ((\<forall>i \<in> set pre. no_access_to L m (reg_of L off) i) \<longrightarrow>
         (\<exists>bs. g' (block_id (blocks f ! b)) = Some bs \<and> reg_of L off \<notin> live_on_entry bs)))"
proof -
  have 1: "visit L sz m (Inst p (Store v ty ptr)) s =
        Inr (s\<lparr>live_on_entry := insert (reg_of L off) (live_on_entry s),
               local_dead := local_dead s - {reg_of L off},
               load_forwarding := (load_forwarding s)(reg_of L off := None)\<rparr>)"
    if "m p = Some off" "in_tables L off" "reg_of L off < RegSet_bits"
      "reg_of L off \<notin> local_dead s" "sz ty \<noteq> size_of_reg L off"
    using that by (simp add: visit_store)
  have 2: "visit L sz m (Inst p (Store v ty ptr)) s =
        Inr (s\<lparr>to_remove := insert p (to_remove s),
               load_forwarding := (load_forwarding s)(reg_of L off := None)\<rparr>)"
    if "m p = Some off" "in_tables L off" "reg_of L off < RegSet_bits"
      "reg_of L off \<in> local_dead s"
    using that by (simp add: visit_store)
  show ?thesis
    using 1 2
      store_before_full_store_removed(1) [of b f pre p v ty ptr mid q v' ty' ptr' post m off off' L sz g f' g']
      store_before_full_store_removed(2) [of b f pre p v ty ptr mid q v' ty' ptr' post m off off' L sz g f' g']
    by blast
qed

lemma partial_then_full_offsets:
  "GetOffsets partial_then_full 1 = Some 0" "GetOffsets partial_then_full 2 = Some 0"
  by (simp_all add: eval_offsets partial_then_full_def)

lemma partial_then_full_result_for:
  assumes "m 1 = Some 0" "m 2 = Some 0"
  shows "LocalOptimizeBlock regs2 store_size_of m 0 (partial_then_full, Map.empty) =
     Inr (\<lparr>state_ptr = 0, blocks = [BasicBlock 0 [Inst 2 (Store 9 (IntegerTy 64) 0)]]\<rparr>,
          Map.empty(0 \<mapsto> \<lparr>live_on_entry = {}, killed_in_block = {0}\<rparr>))"
  using assms by (simp add: eval_scan regs2_tables partial_then_full_def)

lemma regs2_lookup:
  "in_tables regs2 0" "reg_of regs2 0 = 0" "size_of_reg regs2 0 = 8"
  by (simp_all add: in_tables_def reg_of_def size_of_reg_def regs2_tables)

text \<open>The claim as stated fails on \<open>partial_then_full\<close>: the one-byte store
  to the 8-byte register 0 is erased, and register 0 is not live on entry.\<close>

theorem partial_store_removed_and_register_not_live:
  "store_size_of (IntegerTy 8) \<noteq> size_of_reg regs2 0 \<and>
   store_size_of (IntegerTy 64) = size_of_reg regs2 0 \<and>
   LocalOptimizeBlock regs2 store_size_of (GetOffsets partial_then_full) 0
       (partial_then_full, Map.empty) =
     Inr (\<lparr>state_ptr = 0, blocks = [BasicBlock 0 [Inst 2 (Store 9 (IntegerTy 64) 0)]]\<rparr>,
          Map.empty(0 \<mapsto> \<lparr>live_on_entry = {}, killed_in_block = {0}\<rparr>))"
proof -
  have "LocalOptimizeBlock regs2 store_size_of (GetOffsets partial_then_full) 0
       (partial_then_full, Map.empty) =
     Inr (\<lparr>state_ptr = 0, blocks = [BasicBlock 0 [Inst 2 (Store 9 (IntegerTy 64) 0)]]\<rparr>,
          Map.empty(0 \<mapsto> \<lparr>live_on_entry = {}, killed_in_block = {0}\<rparr>))"
    by (rule partial_then_full_result_for) (rule partial_then_full_offsets)+
  then show ?thesis by (simp add: regs2_lookup)
qed

text \<open>The witness: \<open>partial_then_full\<close> again, for the block, and its partial
  store visited in the initial state, where register 0 is not yet dead.\<close>

theorem narrow_store_liveness_witness:
  "GetOffsets partial_then_full 1 = Some 0 \<and> in_tables regs2 0 \<and>
   reg_of regs2 0 < RegSet_bits \<and>
   reg_of regs2 0 \<notin> local_dead (scan_init (blocks partial_then_full)) \<and>
   store_size_of (IntegerTy 8) \<noteq> size_of_reg regs2 0 \<and>
   visit regs2 store_size_of (GetOffsets partial_then_full) (Inst 1 (Store 8 (IntegerTy 8) 0))
       (scan_init (blocks partial_then_full)) =
     Inr ((scan_init (blocks partial_then_full))
            \<lparr>live_on_entry := insert (reg_of regs2 0) (live_on_entry (scan_init (blocks partial_then_full))),
             local_dead := local_dead (scan_init (blocks partial_then_full)) - {reg_of regs2 0},
             load_forwarding := (load_forwarding (scan_init (blocks partial_then_full)))(reg_of regs2 0 := None)\<rparr>) \<and>
   (0::nat) < length (blocks partial_then_full) \<and>
   insts (blocks partial_then_full ! 0) =
     [] @ Inst 1 (Store 8 (IntegerTy 8) 0) # [] @ Inst 2 (Store 9 (IntegerTy 64) 0) # [] \<and>
   GetOffsets partial_then_full 2 = Some 0 \<and>
   store_size_of (IntegerTy 64) = size_of_reg regs2 0 \<and>
   1 \<notin> iid ` set (insts (blocks \<lparr>state_ptr = 0, blocks = [BasicBlock 0 [Inst 2 (Store 9 (IntegerTy 64) 0)]]\<rparr> ! 0)) \<and>
   (\<exists>bs. (Map.empty(0 \<mapsto> \<lparr>live_on_entry = {}, killed_in_block = {0}\<rparr>))
            (block_id (blocks partial_then_full ! 0)) = Some bs \<and>
          reg_of regs2 0 \<notin> live_on_entry bs)"
proof -
  let ?m = "GetOffsets partial_then_full"
  let ?s = "scan_init (blocks partial_then_full)"
  let ?f' = "\<lparr>state_ptr = 0, blocks = [BasicBlock 0 [Inst 2 (Store 9 (IntegerTy 64) 0)]]\<rparr> :: llvm_type llvm_function"
  let ?g' = "Map.empty(0 \<mapsto> \<lparr>live_on_entry = {}, killed_in_block = {0}\<rparr>) :: nat \<Rightarrow> BlockState option"
  have h1: "?m 1 = Some 0" and h2: "?m 2 = Some 0" by (rule partial_then_full_offsets)+
  have h3: "in_tables regs2 0" by (rule regs2_lookup)
  have h4: "reg_of regs2 0 < RegSet_bits" by (simp add: regs2_lookup RegSet_bits_def)
  have h5: "reg_of regs2 0 \<notin> local_dead ?s" by simp
  have h6: "store_size_of (IntegerTy 8) \<noteq> size_of_reg regs2 0" by (simp add: regs2_lookup)
  have h7: "(0::nat) < length (blocks partial_then_full)" by (simp add: partial_then_full_def)
  have h8: "insts (blocks partial_then_full ! 0) =
     [] @ Inst 1 (Store 8 (IntegerTy 8) 0) # [] @ Inst 2 (Store 9 (IntegerTy 64) 0) # []"
    by (simp add: partial_then_full_def)
  have h9: "store_size_of (IntegerTy 64) = size_of_reg regs2 0" by (simp add: regs2_lookup)
  have h10: "\<forall>i \<in> set ([] :: llvm_type inst list). quiet regs2 ?m (reg_of regs2 0) i" by simp
  have h11: "\<forall>i \<in> set ([] :: llvm_type inst list). no_access_to regs2 ?m (reg_of regs2 0) i" by simp
  have h12: "LocalOptimizeBlock regs2 store_size_of ?m 0 (partial_then_full, Map.empty) = Inr (?f', ?g')"
    by (rule partial_then_full_result_for) (rule partial_then_full_offsets)+
  have h13: "reg_of regs2 0 = reg_of regs2 0" ..
  note t = narrow_store_liveness [of ?m 1 0 regs2 ?s store_size_of "IntegerTy 8" 8 0
      0 partial_then_full "[]" "[]" 2 9 "IntegerTy 64" 0 "[]" 0 Map.empty ?f' ?g']
  have c1: "visit regs2 store_size_of ?m (Inst 1 (Store 8 (IntegerTy 8) 0)) ?s =
     Inr (?s\<lparr>live_on_entry := insert (reg_of regs2 0) (live_on_entry ?s),
             local_dead := local_dead ?s - {reg_of regs2 0},
             load_forwarding := (load_forwarding ?s)(reg_of regs2 0 := None)\<rparr>)"
    using t h1 h3 h4 h5 h6 by blast
  have c2: "1 \<notin> iid ` set (insts (blocks ?f' ! 0)) \<and>
      (\<exists>bs. ?g' (block_id (blocks partial_then_full ! 0)) = Some bs \<and>
            reg_of regs2 0 \<notin> live_on_entry bs)"
    using t h1 h2 h7 h8 h9 h10 h11 h12 h13 by blast
  show ?thesis using h1 h2 h3 h4 h5 h6 h7 h8 h9 c1 c2 by blast
qed

lemma forwarded_subset: "forwarded (load_forwarding s r) ty \<subseteq> pending_ids s"
  by (auto simp: forwarded_def pending_ids_def split: option.splits if_splits)

lemma pending_ids_upd_None: "pending_ids (s\<lparr>load_forwarding := (load_forwarding s)(r := None)\<rparr>) \<subseteq> pending_ids s"
  by (auto simp: pending_ids_def split: if_splits)

lemma visit_ids:
  assumes "visit L sz m i s = Inr s'" "to_remove s \<union> pending_ids s \<subseteq> V"
  shows "to_remove s' \<union> pending_ids s' \<subseteq> insert (iid i) V"
  using assms
proof (cases rule: visit_Inr_cases)
  case skip
  then show ?thesis using assms(2)
    by (auto simp: entered_def call_reset_def pending_ids_def)
next
  case (load off ptr ty)
  have "forwarded (load_forwarding s (reg_of L off)) ty \<subseteq> V"
    using forwarded_subset [of s "reg_of L off" ty] assms(2) by blast
  moreover have "pending_ids s' \<subseteq> insert (iid i) (pending_ids s)"
    by (auto simp: load pending_ids_def split: if_splits)
  ultimately show ?thesis using assms(2) by (auto simp: load(5))
next
  case (store_dead off v ty ptr)
  have "pending_ids s' \<subseteq> pending_ids s"
    by (auto simp: store_dead pending_ids_def split: if_splits)
  then show ?thesis using assms(2) by (auto simp: store_dead(6))
next
  case (store_partial off v ty ptr)
  have "pending_ids s' \<subseteq> pending_ids s"
    by (auto simp: store_partial pending_ids_def split: if_splits)
  then show ?thesis using assms(2) by (auto simp: store_partial(7))
next
  case (store_full off v ty ptr)
  have "forwarded (load_forwarding s (reg_of L off)) ty \<subseteq> V"
    using forwarded_subset [of s "reg_of L off" ty] assms(2) by blast
  moreover have "pending_ids s' \<subseteq> pending_ids s"
    by (auto simp: store_full pending_ids_def split: if_splits)
  ultimately show ?thesis using assms(2) by (auto simp: store_full(7))
qed

lemma visit_all_ids:
  "visit_all L sz m xs s = Inr s' \<Longrightarrow> to_remove s \<union> pending_ids s \<subseteq> V \<Longrightarrow>
   to_remove s' \<union> pending_ids s' \<subseteq> V \<union> iid ` set xs"
proof (induction xs arbitrary: s V)
  case Nil
  then show ?case by simp
next
  case (Cons x xs)
  from Cons.prems(1) obtain s1 where s1: "visit L sz m x s = Inr s1"
    "visit_all L sz m xs s1 = Inr s'"
    by (rule visit_all_Cons_Inr)
  have "to_remove s1 \<union> pending_ids s1 \<subseteq> insert (iid x) V"
    using s1(1) Cons.prems(2) by (rule visit_ids)
  from Cons.IH [OF s1(2) this] show ?case by auto
qed

lemma forwarded_kept:
  "kept a R s \<Longrightarrow> r \<noteq> R \<Longrightarrow> a \<notin> forwarded (load_forwarding s r) ty"
  by (auto simp: kept_def forwarded_def split: option.splits if_splits)

lemma visit_kept:
  assumes "visit L sz m i s = Inr s'" "kept a R s" "iid i \<noteq> a" "no_access_to L m R i"
  shows "kept a R s'"
  using assms(1)
proof (cases rule: visit_Inr_cases)
  case skip
  then show ?thesis using assms(2) by (auto simp: kept_def entered_def call_reset_def)
next
  case (load off ptr ty)
  then have r: "reg_of L off \<noteq> R" using assms(4) by (simp add: no_access_to_def)
  show ?thesis
    using assms(2,3) forwarded_kept [OF assms(2) r, of ty]
    by (auto simp: kept_def load(5) split: if_splits)
next
  case (store_dead off v ty ptr)
  then show ?thesis using assms(2,3) by (auto simp: kept_def split: if_splits)
next
  case (store_partial off v ty ptr)
  then show ?thesis using assms(2,3) by (auto simp: kept_def split: if_splits)
next
  case (store_full off v ty ptr)
  then have r: "reg_of L off \<noteq> R" using assms(4) by (simp add: no_access_to_def)
  show ?thesis
    using assms(2,3) forwarded_kept [OF assms(2) r, of ty]
    by (auto simp: kept_def store_full(7) split: if_splits)
qed

lemma visit_all_kept:
  "visit_all L sz m xs s = Inr s' \<Longrightarrow> kept a R s \<Longrightarrow> a \<notin> iid ` set xs \<Longrightarrow>
   \<forall>i \<in> set xs. no_access_to L m R i \<Longrightarrow> kept a R s'"
proof (induction xs arbitrary: s)
  case Nil
  then show ?case by simp
next
  case (Cons x xs)
  from Cons.prems(1) obtain s1 where s1: "visit L sz m x s = Inr s1"
    "visit_all L sz m xs s1 = Inr s'"
    by (rule visit_all_Cons_Inr)
  have "kept a R s1"
    using s1(1) Cons.prems(2) by (rule visit_kept) (use Cons.prems in auto)
  then show ?case using Cons.IH [OF s1(2)] Cons.prems by simp
qed

lemma visit_load_pending:
  assumes "visit L sz m (Inst c (Load ptr ty)) s = Inr s'" "m c = Some off"
  shows "load_forwarding s' (reg_of L off) = Some (c, ty)"
  using assms by (cases rule: visit_Inr_cases) auto

lemma visit_load_forwards:
  assumes "visit L sz m (Inst a (Load ptr ty)) s = Inr s'" "m a = Some off"
    "load_forwarding s (reg_of L off) = Some (c, ty)"
  shows "cur s' = replaceAllUsesWith c a (cur s) \<and> to_remove s' = insert c (to_remove s) \<and>
         load_forwarding s' = (load_forwarding s)(reg_of L off \<mapsto> (a, ty))"
  using assms
  by (cases rule: visit_Inr_cases) (auto simp: pending_forward_def forward_def forwarded_def)

lemma visit_all_two_loads:
  assumes run: "visit_all L sz m (rev (pre @ Inst a (Load pa ty) # mid @
                   Inst c (Load pc ty) # post)) s0 = Inr tF"
    and a: "m a = Some offa" and c: "m c = Some offc"
    and R: "reg_of L offc = reg_of L offa"
    and mid: "\<forall>i \<in> set mid. quiet L m (reg_of L offa) i"
  obtains t3 t4 where
    "visit_all L sz m (rev post @ Inst c (Load pc ty) # rev mid) s0 = Inr t3"
    "load_forwarding t3 (reg_of L offa) = Some (c, ty)"
    "visit L sz m (Inst a (Load pa ty)) t3 = Inr t4"
    "to_remove t4 = insert c (to_remove t3)"
    "load_forwarding t4 = (load_forwarding t3)(reg_of L offa \<mapsto> (a, ty))"
    "visit_all L sz m (rev pre) t4 = Inr tF"
proof -
  let ?R = "reg_of L offa"
  from run have "visit_all L sz m ((rev post @ Inst c (Load pc ty) # rev mid) @
      Inst a (Load pa ty) # rev pre) s0 = Inr tF"
    by (simp only: rev_two_marks)
  then obtain t3 t4 where
    t3: "visit_all L sz m (rev post @ Inst c (Load pc ty) # rev mid) s0 = Inr t3"
    and t4: "visit L sz m (Inst a (Load pa ty)) t3 = Inr t4"
    and tF: "visit_all L sz m (rev pre) t4 = Inr tF"
    by (rule visit_all_split_Inr)
  from t3 obtain t1 t2 where
    t1: "visit_all L sz m (rev post) s0 = Inr t1"
    and t2: "visit L sz m (Inst c (Load pc ty)) t1 = Inr t2"
    and t3': "visit_all L sz m (rev mid) t2 = Inr t3"
    by (rule visit_all_split_Inr)
  have "load_forwarding t2 ?R = Some (c, ty)" using visit_load_pending [OF t2 c] R by simp
  moreover have "\<forall>i \<in> set (rev mid). quiet L m ?R i" using mid by simp
  ultimately have p3: "load_forwarding t3 ?R = Some (c, ty)"
    using visit_all_quiet_frame [OF t3'] by simp
  note f = visit_load_forwards [OF t4 a p3]
  show thesis using that [OF t3 p3 t4 _ _ tF] f by blast
qed

lemma sig_load:
  assumes "sig j = sig (Inst a (Load pa ty))"
  obtains pa' where "j = Inst a (Load pa' ty)"
  using assms by (cases rule: sig_eq_cases) (simp_all add: is_access_def)

lemma rev_two_marks_nth:
  "rev (pre @ x # mid @ y # post) ! (length mid + Suc (length post)) = x"
proof -
  have "rev (pre @ x # mid @ y # post) = rev (mid @ y # post) @ x # rev pre" by simp
  moreover have "length (rev (mid @ y # post)) = length mid + Suc (length post)" by simp
  ultimately show ?thesis by (metis nth_append_length)
qed

lemma rev_two_marks_take:
  "take (length mid + Suc (length post)) (rev (pre @ x # mid @ y # post)) =
     rev post @ y # rev mid"
proof -
  have "rev (pre @ x # mid @ y # post) = (rev post @ y # rev mid) @ x # rev pre" by simp
  moreover have "length (rev post @ y # rev mid) = length mid + Suc (length post)" by simp
  ultimately show ?thesis by (metis append_eq_conv_conj)
qed

lemma later_load_forwarded:
  assumes b: "b < length (blocks f)"
    and blk: "insts (blocks f ! b) = pre @ Inst a (Load pa ty) # mid @ Inst c (Load pc ty) # post"
    and a: "m a = Some offa" and c: "m c = Some offc"
    and R: "reg_of L offc = reg_of L offa"
    and mid: "\<forall>i \<in> set mid. quiet L m (reg_of L offa) i"
    and res: "LocalOptimizeBlock L sz m b (f, g) = Inr (f', g')"
  shows "c \<notin> iid ` set (insts (blocks f' ! b))"
    and "\<exists>s3 s4.
          scan L sz m b (length mid + Suc (length post)) (scan_init (blocks f)) = Inr s3 \<and>
          scan L sz m b (Suc (length mid + Suc (length post))) (scan_init (blocks f)) = Inr s4 \<and>
          load_forwarding s3 (reg_of L offa) = Some (c, ty) \<and>
          cur s4 = replaceAllUsesWith c a (cur s3) \<and>
          to_remove s4 = insert c (to_remove s3)"
    and "distinct (map iid (insts (blocks f ! b))) \<Longrightarrow>
         \<forall>i \<in> set pre. no_access_to L m (reg_of L offa) i \<Longrightarrow>
         a \<in> iid ` set (insts (blocks f' ! b))"
proof -
  let ?bbs = "blocks f"
  let ?R = "reg_of L offa"
  let ?k = "length mid + Suc (length post)"
  let ?La = "Inst a (Load pa ty) :: 'a inst"
  let ?Lc = "Inst c (Load pc ty) :: 'a inst"
  from res obtain sF where
    sF: "scan L sz m b (length (insts (?bbs ! b))) (scan_init ?bbs) = Inr sF"
    and f': "f' = f\<lparr>blocks := (cur sF)[b := eraseFromParent (to_remove sF) (cur sF ! b)]\<rparr>"
    by (rule LocalOptimizeBlock_Inr)
  have out: "iid ` set (insts (blocks f' ! b)) = iid ` set (insts (?bbs ! b)) - to_remove sF"
    using b sF f' by (rule LocalOptimizeBlock_erased)
  have len: "length (insts (?bbs ! b)) = length pre + Suc ?k" by (simp add: blk)
  obtain tF where tF: "visit_all L sz m (rev (pre @ ?La # mid @ ?Lc # post)) (scan_init ?bbs) = Inr tF"
    and atF: "analysis sF = analysis tF"
    using scan_Inr_visit_all [OF b _ sF] by (auto simp: blk)
  from tF a c R mid obtain t3 t4 where
    t3: "visit_all L sz m (rev post @ ?Lc # rev mid) (scan_init ?bbs) = Inr t3"
    and p3: "load_forwarding t3 ?R = Some (c, ty)"
    and t4: "visit L sz m ?La t3 = Inr t4"
    and r4: "to_remove t4 = insert c (to_remove t3)"
    and l4: "load_forwarding t4 = (load_forwarding t3)(?R \<mapsto> (a, ty))"
    and tF': "visit_all L sz m (rev pre) t4 = Inr tF"
    by (rule visit_all_two_loads)
  have "c \<in> to_remove tF" using visit_all_to_remove_mono [OF tF'] r4 by blast
  then have "c \<in> to_remove sF" using analysis_eqD(5) [OF atF] by simp
  then show "c \<notin> iid ` set (insts (blocks f' ! b))" using out by simp
  have k: "?k \<le> length (insts (?bbs ! b))" by (simp add: len)
  have "visit_all L sz m (take ?k (rev (insts (?bbs ! b)))) (scan_init ?bbs) = Inr t3"
    using t3 unfolding blk by (simp only: rev_two_marks_take)
  with b k obtain s3 where s3: "scan L sz m b ?k (scan_init ?bbs) = Inr s3"
    and as3: "analysis s3 = analysis t3"
    by (rule visit_all_Inr_scan)
  obtain s4 where s4: "scan L sz m b (Suc ?k) (scan_init ?bbs) = Inr s4"
    using scan_Inr_prefix [OF sF, of "Suc ?k"] by (auto simp: len)
  let ?j = "insts (cur s3 ! b) ! (length (insts (cur s3 ! b)) - Suc ?k)"
  have "sig ?j = sig (rev (insts (?bbs ! b)) ! ?k)"
    using scan_step_sig [of b "scan_init ?bbs" ?k L sz m s3] b s3 by (simp add: len)
  also have "rev (insts (?bbs ! b)) ! ?k = ?La"
    unfolding blk by (rule rev_two_marks_nth)
  finally have "sig ?j = sig ?La" .
  then obtain pa' where j: "?j = Inst a (Load pa' ty)" by (rule sig_load)
  have v: "visit L sz m (Inst a (Load pa' ty)) s3 = Inr s4" using s3 s4 j by simp
  have "load_forwarding s3 ?R = Some (c, ty)" using p3 analysis_eqD(4) [OF as3] by simp
  then have fw: "load_forwarding s3 ?R = Some (c, ty) \<and> cur s4 = replaceAllUsesWith c a (cur s3) \<and>
      to_remove s4 = insert c (to_remove s3)"
    using visit_load_forwards [OF v a] by simp
  then show "\<exists>s3 s4.
          scan L sz m b ?k (scan_init ?bbs) = Inr s3 \<and>
          scan L sz m b (Suc ?k) (scan_init ?bbs) = Inr s4 \<and>
          load_forwarding s3 ?R = Some (c, ty) \<and>
          cur s4 = replaceAllUsesWith c a (cur s3) \<and>
          to_remove s4 = insert c (to_remove s3)"
    using s3 s4 by blast
  assume d: "distinct (map iid (insts (?bbs ! b)))"
    and pre: "\<forall>i \<in> set pre. no_access_to L m ?R i"
  from d have d1: "a \<notin> iid ` set pre" and d2: "a \<notin> iid ` set mid" and d3: "a \<noteq> c"
    and d4: "a \<notin> iid ` set post"
    by (auto simp: blk)
  have "to_remove t3 \<union> pending_ids t3 \<subseteq> {} \<union> iid ` set (rev post @ ?Lc # rev mid)"
    using t3 by (rule visit_all_ids) (simp add: pending_ids_def)
  then have n3: "a \<notin> to_remove t3" "a \<notin> pending_ids t3"
    using d2 d3 d4 by auto
  have "kept a ?R t4"
    using n3 d3 by (auto simp: kept_def r4 l4 pending_ids_def split: if_splits)
  moreover have "a \<notin> iid ` set (rev pre)" using d1 by simp
  moreover have "\<forall>i \<in> set (rev pre). no_access_to L m ?R i" using pre by simp
  ultimately have "kept a ?R tF" using visit_all_kept [OF tF'] by blast
  then have "a \<notin> to_remove sF" using analysis_eqD(5) [OF atF] by (simp add: kept_def)
  then show "a \<in> iid ` set (insts (blocks f' ! b))" using out by (simp add: blk)
qed

text \<open>
  Claim C3, as amended. Of two loads of the same register with the same type, with
  no call and no mapped load or store of that register between them, the later one
  in program order is the one that goes: when the scan reaches the earlier load,
  the later one is pending for the register, every use of the later load is
  replaced by the earlier load, the later load is marked, and it is erased from the
  block. The earlier load stays in the block when the instructions of the block
  have distinct identities and nothing before it is a mapped load or store of the
  register.
\<close>

theorem later_load_reuses_earlier_load:
  assumes "b < length (blocks f)"
    and "insts (blocks f ! b) = pre @ Inst a (Load pa ty) # mid @ Inst c (Load pc ty) # post"
    and "m a = Some offa" and "m c = Some offc"
    and "reg_of L offc = reg_of L offa"
    and "\<forall>i \<in> set mid. quiet L m (reg_of L offa) i"
    and "LocalOptimizeBlock L sz m b (f, g) = Inr (f', g')"
  shows "c \<notin> iid ` set (insts (blocks f' ! b)) \<and>
    (\<exists>s3 s4.
        scan L sz m b (length mid + Suc (length post)) (scan_init (blocks f)) = Inr s3 \<and>
        scan L sz m b (Suc (length mid + Suc (length post))) (scan_init (blocks f)) = Inr s4 \<and>
        load_forwarding s3 (reg_of L offa) = Some (c, ty) \<and>
        cur s4 = replaceAllUsesWith c a (cur s3) \<and>
        to_remove s4 = insert c (to_remove s3)) \<and>
    (distinct (map iid (insts (blocks f ! b))) \<and>
     (\<forall>i \<in> set pre. no_access_to L m (reg_of L offa) i) \<longrightarrow>
       a \<in> iid ` set (insts (blocks f' ! b)))"
  using later_load_forwarded(1) [OF assms] later_load_forwarded(2) [OF assms]
    later_load_forwarded(3) [OF assms]
  by blast

lemma two_loads_offsets:
  "GetOffsets two_loads 1 = Some 0" "GetOffsets two_loads 2 = Some 0"
  "GetOffsets two_loads 3 = None"
  by (simp_all add: eval_offsets two_loads_def)

lemma two_loads_result_for:
  assumes "m 1 = Some 0" "m 2 = Some 0" "m 3 = None"
  shows "LocalOptimizeBlock regs2 store_size_of m 0 (two_loads, Map.empty) =
     Inr (\<lparr>state_ptr = 0, blocks = [BasicBlock 0
            [Inst 1 (Load 0 (IntegerTy 64)), Inst 3 (Other [1, 1])]]\<rparr>,
          Map.empty(0 \<mapsto> \<lparr>live_on_entry = {0}, killed_in_block = {}\<rparr>))"
  using assms by (simp add: eval_scan regs2_tables two_loads_def)

text \<open>The claim as stated fails on \<open>two_loads\<close>: load 2, the later one, is
  erased and its use in instruction 3 now names load 1, which stays.\<close>

theorem earlier_load_kept_later_load_removed:
  "insts (blocks two_loads ! 0) =
     [Inst 1 (Load 0 (IntegerTy 64)), Inst 2 (Load 0 (IntegerTy 64)), Inst 3 (Other [1, 2])] \<and>
   LocalOptimizeBlock regs2 store_size_of (GetOffsets two_loads) 0 (two_loads, Map.empty) =
     Inr (\<lparr>state_ptr = 0, blocks = [BasicBlock 0
            [Inst 1 (Load 0 (IntegerTy 64)), Inst 3 (Other [1, 1])]]\<rparr>,
          Map.empty(0 \<mapsto> \<lparr>live_on_entry = {0}, killed_in_block = {}\<rparr>))"
proof -
  have "LocalOptimizeBlock regs2 store_size_of (GetOffsets two_loads) 0 (two_loads, Map.empty) =
     Inr (\<lparr>state_ptr = 0, blocks = [BasicBlock 0
            [Inst 1 (Load 0 (IntegerTy 64)), Inst 3 (Other [1, 1])]]\<rparr>,
          Map.empty(0 \<mapsto> \<lparr>live_on_entry = {0}, killed_in_block = {}\<rparr>))"
    by (rule two_loads_result_for) (rule two_loads_offsets)+
  then show ?thesis by (simp add: two_loads_def)
qed

text \<open>The witness: \<open>two_loads\<close>.\<close>

theorem later_load_reuses_earlier_load_witness:
  "(0::nat) < length (blocks two_loads) \<and>
   insts (blocks two_loads ! 0) =
     [] @ Inst 1 (Load 0 (IntegerTy 64)) # [] @ Inst 2 (Load 0 (IntegerTy 64)) # [Inst 3 (Other [1, 2])] \<and>
   GetOffsets two_loads 1 = Some 0 \<and> GetOffsets two_loads 2 = Some 0 \<and>
   distinct (map iid (insts (blocks two_loads ! 0))) \<and>
   LocalOptimizeBlock regs2 store_size_of (GetOffsets two_loads) 0 (two_loads, Map.empty) =
     Inr (\<lparr>state_ptr = 0, blocks = [BasicBlock 0
            [Inst 1 (Load 0 (IntegerTy 64)), Inst 3 (Other [1, 1])]]\<rparr>,
          Map.empty(0 \<mapsto> \<lparr>live_on_entry = {0}, killed_in_block = {}\<rparr>)) \<and>
   2 \<notin> iid ` set (insts (blocks \<lparr>state_ptr = 0, blocks = [BasicBlock 0
            [Inst 1 (Load 0 (IntegerTy 64)), Inst 3 (Other [1, 1 :: nat]) :: llvm_type inst]]\<rparr> ! 0)) \<and>
   1 \<in> iid ` set (insts (blocks \<lparr>state_ptr = 0, blocks = [BasicBlock 0
            [Inst 1 (Load 0 (IntegerTy 64)), Inst 3 (Other [1, 1 :: nat]) :: llvm_type inst]]\<rparr> ! 0)) \<and>
   (\<exists>s3 s4.
      scan regs2 store_size_of (GetOffsets two_loads) 0 (Suc (Suc 0)) (scan_init (blocks two_loads)) = Inr s3 \<and>
      scan regs2 store_size_of (GetOffsets two_loads) 0 (Suc (Suc (Suc 0))) (scan_init (blocks two_loads)) = Inr s4 \<and>
      load_forwarding s3 (reg_of regs2 0) = Some (2, IntegerTy 64) \<and>
      cur s4 = replaceAllUsesWith 2 1 (cur s3) \<and>
      to_remove s4 = insert 2 (to_remove s3))"
proof -
  let ?m = "GetOffsets two_loads"
  let ?f' = "\<lparr>state_ptr = 0, blocks = [BasicBlock 0
            [Inst 1 (Load 0 (IntegerTy 64)), Inst 3 (Other [1, 1])]]\<rparr> :: llvm_type llvm_function"
  let ?g' = "Map.empty(0 \<mapsto> \<lparr>live_on_entry = {0}, killed_in_block = {}\<rparr>) :: nat \<Rightarrow> BlockState option"
  let ?post = "[Inst 3 (Other [1, 2])] :: llvm_type inst list"
  have h1: "(0::nat) < length (blocks two_loads)" by (simp add: two_loads_def)
  have h2: "insts (blocks two_loads ! 0) =
     [] @ Inst 1 (Load 0 (IntegerTy 64)) # [] @ Inst 2 (Load 0 (IntegerTy 64)) # ?post"
    by (simp add: two_loads_def)
  have h3: "?m 1 = Some 0" and h4: "?m 2 = Some 0" by (rule two_loads_offsets)+
  have h5: "reg_of regs2 0 = reg_of regs2 0" ..
  have h6: "\<forall>i \<in> set ([] :: llvm_type inst list). quiet regs2 ?m (reg_of regs2 0) i" by simp
  have h7: "LocalOptimizeBlock regs2 store_size_of ?m 0 (two_loads, Map.empty) = Inr (?f', ?g')"
    by (rule two_loads_result_for) (rule two_loads_offsets)+
  have h8: "distinct (map iid (insts (blocks two_loads ! 0)))" by (simp add: two_loads_def)
  have h9: "\<forall>i \<in> set ([] :: llvm_type inst list). no_access_to regs2 ?m (reg_of regs2 0) i" by simp
  note t = later_load_reuses_earlier_load [OF h1 h2 h3 h4 h5 h6 h7]
  have k: "length ([] :: llvm_type inst list) + Suc (length ?post) = Suc (Suc 0)" by simp
  from t have c1: "2 \<notin> iid ` set (insts (blocks ?f' ! 0))" by blast
  from t h8 h9 have c2: "1 \<in> iid ` set (insts (blocks ?f' ! 0))" by blast
  from t have c3: "\<exists>s3 s4.
      scan regs2 store_size_of ?m 0 (Suc (Suc 0)) (scan_init (blocks two_loads)) = Inr s3 \<and>
      scan regs2 store_size_of ?m 0 (Suc (Suc (Suc 0))) (scan_init (blocks two_loads)) = Inr s4 \<and>
      load_forwarding s3 (reg_of regs2 0) = Some (2, IntegerTy 64) \<and>
      cur s4 = replaceAllUsesWith 2 1 (cur s3) \<and>
      to_remove s4 = insert 2 (to_remove s3)"
    unfolding k by blast
  show ?thesis using h1 h2 h3 h4 h7 h8 c1 c2 c3 by blast
qed

lemma visit_safe:
  assumes "safe_inst L m i"
  shows "\<exists>s'. visit L sz m i s = Inr s'"
proof -
  obtain x k where i: "i = Inst x k" by (cases i)
  show ?thesis
  proof (cases "m x")
    case None
    then show ?thesis by (simp add: i visit_unmapped)
  next
    case (Some off)
    then have it: "in_tables L off" and r: "is_access k \<longrightarrow> reg_of L off < RegSet_bits"
      using assms by (simp_all add: safe_inst_def i)
    show ?thesis
    proof (cases "is_access k")
      case False
      then show ?thesis using Some it by (simp add: i visit_no_access)
    next
      case True
      then consider (ld) ptr ty where "k = Load ptr ty" | (st) v ty ptr where "k = Store v ty ptr"
        by (cases k) (simp_all add: is_access_def)
      then show ?thesis
      proof cases
        case ld
        then show ?thesis using Some it r by (simp add: i visit_load)
      next
        case st
        then show ?thesis using Some it r by (simp add: i visit_store)
      qed
    qed
  qed
qed

lemma visit_all_safe:
  "\<forall>i \<in> set xs. safe_inst L m i \<Longrightarrow> \<exists>s'. visit_all L sz m xs s = Inr s'"
proof (induction xs arbitrary: s)
  case Nil
  then show ?case by simp
next
  case (Cons x xs)
  then obtain s1 where "visit L sz m x s = Inr s1" using visit_safe [of L m x sz s] by auto
  then show ?case using Cons.IH [of s1] Cons.prems by simp
qed

lemma visit_all_faults:
  assumes "x \<in> set xs" "\<And>t. \<exists>e. visit L sz m x t = Inl e"
  shows "\<exists>e. visit_all L sz m xs s = Inl e"
  using assms(1)
proof (induction xs arbitrary: s)
  case Nil
  then show ?case by simp
next
  case (Cons y ys)
  show ?case
  proof (cases "visit L sz m y s")
    case (Inl e)
    then show ?thesis by simp
  next
    case (Inr s1)
    then have "y \<noteq> x" using assms(2) [of s] by auto
    then have "x \<in> set ys" using Cons.prems by simp
    then show ?thesis using Cons.IH [of s1] Inr by simp
  qed
qed

lemma visit_access_bad_reg:
  assumes "m x = Some off" "in_tables L off" "is_access k" "\<not> reg_of L off < RegSet_bits"
  shows "visit L sz m (Inst x k) s = Inl BitsetPositionOutOfRange"
proof -
  from assms(3) consider (ld) ptr ty where "k = Load ptr ty" | (st) v ty ptr where "k = Store v ty ptr"
    by (cases k) (simp_all add: is_access_def)
  then show ?thesis
  proof cases
    case ld
    then show ?thesis using assms by (simp add: visit_load)
  next
    case st
    then show ?thesis using assms by (simp add: visit_store)
  qed
qed

lemma scan_full_visit_all:
  assumes "b < length bbs"
  shows "on_result analysis (scan L sz m b (length (insts (bbs ! b))) (scan_init bbs)) =
         on_result analysis (visit_all L sz m (rev (insts (bbs ! b))) (scan_init bbs))"
  using scan_visit_all [OF assms, of "length (insts (bbs ! b))" L sz m] by simp

lemma LocalOptimizeBlock_safe:
  assumes "b < length (blocks f)" "\<forall>i \<in> set (insts (blocks f ! b)). safe_inst L m i"
  shows "\<exists>f' g'. LocalOptimizeBlock L sz m b (f, g) = Inr (f', g') \<and> same_insts f' f"
proof -
  have "\<forall>i \<in> set (rev (insts (blocks f ! b))). safe_inst L m i" using assms(2) by simp
  then obtain t where "visit_all L sz m (rev (insts (blocks f ! b))) (scan_init (blocks f)) = Inr t"
    using visit_all_safe by blast
  then have "on_result analysis (scan L sz m b (length (insts (blocks f ! b))) (scan_init (blocks f)))
      = Inr (analysis t)"
    using scan_full_visit_all [OF assms(1), of L sz m] by simp
  then obtain s where s: "scan L sz m b (length (insts (blocks f ! b))) (scan_init (blocks f)) = Inr s"
    by (auto simp: on_result_eq_Inr)
  have sk: "skeleton (cur s) = skeleton (blocks f)" using scan_skeleton [OF s] by simp
  have len: "length (cur s) = length (blocks f)" using sk assms(1) by (rule skeleton_nth)
  let ?f' = "f\<lparr>blocks := (cur s)[b := eraseFromParent (to_remove s) (cur s ! b)]\<rparr>"
  have sub: "\<exists>i \<in> set (insts (blocks f ! b')). sig j = sig i"
    if b': "b' < length (blocks f)" and j: "j \<in> set (insts (blocks ?f' ! b'))" for b' j
  proof -
    have m: "map sig (insts (cur s ! b')) = map sig (insts (blocks f ! b'))"
      using sk b' by (rule skeleton_nth)
    have "j \<in> set (insts (cur s ! b'))"
      using j b' len by (cases "b' = b") (auto simp: eraseFromParent_def)
    then have "sig j \<in> set (map sig (insts (cur s ! b')))" by simp
    then have "sig j \<in> set (map sig (insts (blocks f ! b')))" by (simp only: m)
    then show ?thesis by auto
  qed
  have "LocalOptimizeBlock L sz m b (f, g) =
      Inr (?f', g(block_id (cur s ! b) \<mapsto> BlockState.truncate s))"
    using s by (simp add: LocalOptimizeBlock_def)
  moreover have "length (blocks ?f') = length (blocks f)" using len by simp
  then have "same_insts ?f' f" using sub unfolding same_insts_def by blast
  ultimately show ?thesis by blast
qed

lemma safe_inst_sig:
  assumes "sig j = sig i" "safe_inst L m i"
  shows "safe_inst L m j"
  using assms(1)
proof (cases rule: sig_eq_cases)
  case (load x ptr ptr' ty)
  then show ?thesis using assms(2) by (simp add: safe_inst_def)
next
  case (store x v v' ptr ptr' ty)
  then show ?thesis using assms(2) by (simp add: safe_inst_def)
next
  case (call x ops ops')
  then show ?thesis using assms(2) by (simp add: safe_inst_def)
next
  case (other x k k')
  then show ?thesis using assms(2) by (simp add: safe_inst_def)
qed

lemma optimize_blocks_safe:
  "\<forall>b \<in> set bs. b < length (blocks f) \<Longrightarrow>
   \<forall>b < length (blocks f). \<forall>i \<in> set (insts (blocks f ! b)). safe_inst L m i \<Longrightarrow>
   \<exists>fg'. optimize_blocks L sz m bs (f, g) = Inr fg'"
proof (induction bs arbitrary: f g)
  case Nil
  show ?case by simp
next
  case (Cons b bs)
  have b: "b < length (blocks f)" using Cons.prems(1) by simp
  have "\<forall>i \<in> set (insts (blocks f ! b)). safe_inst L m i" using Cons.prems(2) b by blast
  from LocalOptimizeBlock_safe [OF b this, of sz g] obtain f' g' where
    r: "LocalOptimizeBlock L sz m b (f, g) = Inr (f', g')" and si: "same_insts f' f"
    by blast
  from si have len: "length (blocks f') = length (blocks f)" by (simp add: same_insts_def)
  from si have sub: "\<exists>i \<in> set (insts (blocks f ! b')). sig j = sig i"
    if "b' < length (blocks f)" "j \<in> set (insts (blocks f' ! b'))" for b' j
    using that unfolding same_insts_def by blast
  have 1: "\<forall>b \<in> set bs. b < length (blocks f')"
  proof
    fix b' assume "b' \<in> set bs"
    then have "b' < length (blocks f)" using Cons.prems(1) by simp
    then show "b' < length (blocks f')" by (simp only: len)
  qed
  have 2: "\<forall>b < length (blocks f'). \<forall>i \<in> set (insts (blocks f' ! b)). safe_inst L m i"
  proof (intro allI impI ballI)
    fix b' j
    assume b': "b' < length (blocks f')" and j: "j \<in> set (insts (blocks f' ! b'))"
    from b' have b'': "b' < length (blocks f)" by (simp only: len)
    from sub [OF b'' j] obtain i where i: "i \<in> set (insts (blocks f ! b'))" "sig j = sig i" ..
    from Cons.prems(2) b'' i(1) have "safe_inst L m i" by blast
    with i(2) show "safe_inst L m j" by (rule safe_inst_sig)
  qed
  from Cons.IH [OF 1 2, of g'] obtain fg' where "optimize_blocks L sz m bs (f', g') = Inr fg'" ..
  then have "optimize_blocks L sz m (b # bs) (f, g) = Inr fg'" by (simp add: r)
  then show ?case ..
qed

lemma init_fields_lengths:
  "length (gByteOffsetToRegOffset (init_fields fs r t L)) = length (gByteOffsetToRegOffset L) + sum_list fs"
  "length (gByteOffsetToRegSize (init_fields fs r t L)) = length (gByteOffsetToRegSize L) + sum_list fs"
  "length (gByteOffsetToBeginOffset (init_fields fs r t L)) = length (gByteOffsetToBeginOffset L) + sum_list fs"
  by (induction fs arbitrary: r t L) simp_all

lemma init_fields_regs:
  "x \<in> set (gByteOffsetToRegOffset (init_fields fs r t L)) \<Longrightarrow>
   x \<in> set (gByteOffsetToRegOffset L) \<or> x < r + length fs"
proof (induction fs arbitrary: r t L)
  case Nil
  then show ?case by simp
next
  case (Cons s fs)
  let ?L' = "L\<lparr>gByteOffsetToRegOffset := gByteOffsetToRegOffset L @ replicate s r,
               gByteOffsetToRegSize := gByteOffsetToRegSize L @ replicate s (s mod 2 ^ 32),
               gByteOffsetToBeginOffset := gByteOffsetToBeginOffset L @ replicate s t\<rparr>"
  from Cons.prems have "x \<in> set (gByteOffsetToRegOffset
      (init_fields fs ((r + 1) mod 2 ^ 32) ((t + s) mod 2 ^ 32) ?L'))" by simp
  from Cons.IH [OF this] have "x \<in> set (gByteOffsetToRegOffset ?L') \<or> x < (r + 1) mod 2 ^ 32 + length fs" .
  moreover have "(r + 1) mod 2 ^ 32 \<le> r + 1" by (rule mod_less_eq_dividend)
  ultimately show ?case by (auto split: if_splits)
qed

lemma init_tables:
  "in_tables (InitDeadRegisterEliminator sz elements no_tables) off \<longleftrightarrow>
     unat off < sum_list (map sz elements)"
  "r \<in> set (gByteOffsetToRegOffset (InitDeadRegisterEliminator sz elements no_tables)) \<Longrightarrow>
     r < length elements"
proof -
  show "in_tables (InitDeadRegisterEliminator sz elements no_tables) off \<longleftrightarrow>
     unat off < sum_list (map sz elements)"
    by (simp add: in_tables_def InitDeadRegisterEliminator_def init_fields_lengths no_tables_def)
  assume "r \<in> set (gByteOffsetToRegOffset (InitDeadRegisterEliminator sz elements no_tables))"
  then show "r < length elements"
    using init_fields_regs [of r "map sz elements" 0 0 no_tables]
    by (simp add: InitDeadRegisterEliminator_def no_tables_def)
qed

lemma safe_inst_from_bounds:
  assumes "\<forall>v off. m v = Some off \<longrightarrow> in_tables L off"
    and "\<forall>r \<in> set (gByteOffsetToRegOffset L). r < RegSet_bits"
  shows "safe_inst L m i"
  unfolding safe_inst_def
proof (intro allI impI conjI)
  fix off assume o: "m (iid i) = Some off"
  then show it: "in_tables L off" using assms(1) by blast
  then have "reg_of L off \<in> set (gByteOffsetToRegOffset L)"
    by (simp add: in_tables_def reg_of_def)
  then show "reg_of L off < RegSet_bits" using assms(2) by blast
qed

lemma LocalOptimizeBlock_faults:
  assumes b: "b < length (blocks f)" and i: "i \<in> set (insts (blocks f ! b))"
    and bad: "\<And>t. \<exists>e. visit L sz m i t = Inl e"
  shows "\<exists>e. LocalOptimizeBlock L sz m b (f, g) = Inl e"
proof -
  have "i \<in> set (rev (insts (blocks f ! b)))" using i by simp
  then obtain e where "visit_all L sz m (rev (insts (blocks f ! b))) (scan_init (blocks f)) = Inl e"
    using visit_all_faults [OF _ bad] by blast
  then have "on_result analysis (scan L sz m b (length (insts (blocks f ! b))) (scan_init (blocks f)))
      = Inl e"
    using scan_full_visit_all [OF b, of L sz m] by simp
  then have "scan L sz m b (length (insts (blocks f ! b))) (scan_init (blocks f)) = Inl e"
    by simp
  then show ?thesis by (simp add: LocalOptimizeBlock_def)
qed

lemma OptimizeFunction_safe:
  assumes "\<forall>v off. GetOffsets f v = Some off \<longrightarrow> in_tables L off"
    and "\<forall>r \<in> set (gByteOffsetToRegOffset L). r < RegSet_bits"
  shows "\<exists>fg'. OptimizeFunction pm L sz (f, g) = Inr fg'"
proof -
  have "\<forall>b < length (blocks f). \<forall>i \<in> set (insts (blocks f ! b)). safe_inst L (GetOffsets f) i"
    using safe_inst_from_bounds [OF assms] by blast
  moreover have "\<forall>b \<in> set [0 ..< length (blocks f)]. b < length (blocks f)" by simp
  ultimately obtain fg' where
    "optimize_blocks L sz (GetOffsets f) [0 ..< length (blocks f)] (f, g) = Inr fg'"
    using optimize_blocks_safe by blast
  then show ?thesis by (cases fg') (simp add: OptimizeFunction_def)
qed

text \<open>
  Claim C9. The eliminator reads the two tables at the offset of every mapped
  instruction of the block, and uses the register number found there as a bit
  position for every mapped load and store, without a check of its own. When every
  offset in the map is inside the tables and every register number in the table is
  below 128, \<^verbatim>\<open>LocalOptimizeBlock\<close> and \<^verbatim>\<open>OptimizeFunction\<close> return a result. A mapped
  instruction whose offset is outside the tables ends its iteration in the undefined
  vector read, a mapped load or store whose register number is 128 or more in the
  bit set's exception, and a block that contains such an instruction has no result.
  For the tables \<^verbatim>\<open>InitDeadRegisterEliminator\<close> builds from nothing, an offset is
  inside exactly when it is below the sum of the fields' store sizes, and every
  register number is below the number of fields.
\<close>

theorem eliminator_defined_within_bounds:
  "((\<forall>v off. m v = Some off \<longrightarrow> in_tables L off) \<and>
    (\<forall>r \<in> set (gByteOffsetToRegOffset L). r < RegSet_bits) \<and> b < length (blocks f) \<longrightarrow>
      (\<exists>fg'. LocalOptimizeBlock L sz m b (f, g) = Inr fg'))
   \<and> ((\<forall>v off. GetOffsets f v = Some off \<longrightarrow> in_tables L off) \<and>
      (\<forall>r \<in> set (gByteOffsetToRegOffset L). r < RegSet_bits) \<longrightarrow>
      (\<exists>fg'. OptimizeFunction pm L sz (f, g) = Inr fg'))
   \<and> (m x = Some off \<and> \<not> in_tables L off \<longrightarrow>
        visit L sz m (Inst x k) s = Inl VectorIndexOutOfRange)
   \<and> (m x = Some off \<and> in_tables L off \<and> is_access k \<and> \<not> reg_of L off < RegSet_bits \<longrightarrow>
        visit L sz m (Inst x k) s = Inl BitsetPositionOutOfRange)
   \<and> (b < length (blocks f) \<and> Inst x k \<in> set (insts (blocks f ! b)) \<and> m x = Some off \<and>
      (\<not> in_tables L off \<or> is_access k \<and> \<not> reg_of L off < RegSet_bits) \<longrightarrow>
        (\<exists>e. LocalOptimizeBlock L sz m b (f, g) = Inl e))
   \<and> (in_tables (InitDeadRegisterEliminator sz elements no_tables) off \<longleftrightarrow>
        unat off < sum_list (map sz elements))
   \<and> (\<forall>r \<in> set (gByteOffsetToRegOffset (InitDeadRegisterEliminator sz elements no_tables)).
        r < length elements)"
proof -
  have 1: "\<exists>fg'. LocalOptimizeBlock L sz m b (f, g) = Inr fg'"
    if "\<forall>v off. m v = Some off \<longrightarrow> in_tables L off"
      "\<forall>r \<in> set (gByteOffsetToRegOffset L). r < RegSet_bits" "b < length (blocks f)"
    using LocalOptimizeBlock_safe [OF that(3), of L m sz g] safe_inst_from_bounds [OF that(1,2)]
    by blast
  have 3: "visit L sz m (Inst x k) s = Inl VectorIndexOutOfRange"
    if "m x = Some off" "\<not> in_tables L off" for s
    using that by (rule visit_out_of_tables)
  have 4: "visit L sz m (Inst x k) s = Inl BitsetPositionOutOfRange"
    if "m x = Some off" "in_tables L off" "is_access k" "\<not> reg_of L off < RegSet_bits" for s
    using that by (rule visit_access_bad_reg)
  have 5: "\<exists>e. LocalOptimizeBlock L sz m b (f, g) = Inl e"
    if b: "b < length (blocks f)" and i: "Inst x k \<in> set (insts (blocks f ! b))"
      and o: "m x = Some off"
      and bad: "\<not> in_tables L off \<or> is_access k \<and> \<not> reg_of L off < RegSet_bits"
  proof -
    have "\<exists>e. visit L sz m (Inst x k) t = Inl e" for t
      using bad 3 [OF o, of t] 4 [OF o, of t] by (cases "in_tables L off") auto
    then show ?thesis using b i by (intro LocalOptimizeBlock_faults)
  qed
  show ?thesis
    using 1 3 4 5 OptimizeFunction_safe [of f L pm sz g] init_tables(1) [of sz elements off]
      init_tables(2) [of _ sz elements]
    by blast
qed

lemma init_fields_bytes:
  "r + n < 2 ^ 32 \<Longrightarrow>
   gByteOffsetToRegOffset (init_fields (replicate n 1) r t L) =
     gByteOffsetToRegOffset L @ [r ..< r + n]"
proof (induction n arbitrary: r t L)
  case 0
  then show ?case by simp
next
  case (Suc n)
  have r1: "(r + 1) mod 2 ^ 32 = r + 1" using Suc.prems by simp
  have "r + 1 + n < 2 ^ 32" using Suc.prems by simp
  then have "gByteOffsetToRegOffset (init_fields (replicate n 1) (r + 1) ((t + 1) mod 2 ^ 32)
        (L\<lparr>gByteOffsetToRegOffset := gByteOffsetToRegOffset L @ replicate 1 r,
           gByteOffsetToRegSize := gByteOffsetToRegSize L @ replicate 1 (1 mod 2 ^ 32),
           gByteOffsetToBeginOffset := gByteOffsetToBeginOffset L @ replicate 1 t\<rparr>)) =
      (gByteOffsetToRegOffset L @ replicate 1 r) @ [r + 1 ..< r + 1 + n]"
    using Suc.IH [of "r + 1"] by simp
  then show ?case using r1 by (simp add: upt_rec [of r])
qed

lemma many_regs_lookup:
  "in_tables many_regs 128" "reg_of many_regs 128 = 128"
proof -
  have "in_tables many_regs 128 \<longleftrightarrow>
      unat (128 :: 32 word) < sum_list (map store_size_of (replicate 129 (IntegerTy 8)))"
    unfolding many_regs_def by (rule init_tables)
  then show "in_tables many_regs 128" by (simp add: sum_list_replicate)
  have "map store_size_of (replicate 129 (IntegerTy 8)) = replicate 129 1" by simp
  then have "gByteOffsetToRegOffset many_regs = [0 ..< 0 + 129]"
    using init_fields_bytes [of 0 129 0 no_tables]
    by (simp add: many_regs_def InitDeadRegisterEliminator_def no_tables_def)
  then show "reg_of many_regs 128 = 128" by (simp add: reg_of_def)
qed

lemma past_the_end_offsets: "GetOffsets past_the_end 2 = Some 9"
  by (simp add: eval_offsets past_the_end_def)

lemma register_128_offsets: "GetOffsets register_128 2 = Some 128"
  by (simp add: eval_offsets register_128_def)

lemma subreg_offsets_in_tables:
  assumes "GetOffsets subreg_block v = Some off"
  shows "in_tables regs2 off"
proof -
  have "dom (GetOffsets subreg_block) \<subseteq> {0} \<union> iid ` set (instructions subreg_block)"
    using loop_dom [of subreg_block "Map.empty(state_ptr subreg_block \<mapsto> 0)" 0]
    by (simp add: GetOffsets_def subreg_block_def)
  also have "iid ` set (instructions subreg_block) = {1, 2, 3, 4, 5, 6}"
    by (simp add: instructions_def subreg_block_def)
  finally have "v \<in> {0} \<union> {1, 2, 3, 4, 5, 6}" using assms by blast
  moreover have "GetOffsets subreg_block 0 = Some 0"
    using GetOffsets_state_ptr [of subreg_block] by (simp add: subreg_block_def)
  ultimately have "off \<in> {0, 1, 8}" using assms subreg_offsets by auto
  then show ?thesis by (auto simp: in_tables_def regs2_tables)
qed

lemma regs2_registers: "\<forall>r \<in> set (gByteOffsetToRegOffset regs2). r < RegSet_bits"
  by (simp add: regs2_tables RegSet_bits_def)

text \<open>The witness: \<open>subreg_block\<close> is within bounds; \<open>past_the_end\<close> reads the
  tables at byte 9 of 9; \<open>register_128\<close> sets bit 128.\<close>

theorem eliminator_defined_within_bounds_witness:
  "(\<exists>fg'. LocalOptimizeBlock regs2 store_size_of (GetOffsets subreg_block) 0
             (subreg_block, Map.empty) = Inr fg') \<and>
   (\<exists>fg'. OptimizeFunction (\<lambda>f. f) regs2 store_size_of (subreg_block, Map.empty) = Inr fg') \<and>
   GetOffsets past_the_end 2 = Some 9 \<and> \<not> in_tables regs2 9 \<and>
   visit regs2 store_size_of (GetOffsets past_the_end) (Inst 2 (Load 1 (IntegerTy 8)))
     (scan_init (blocks past_the_end)) = Inl VectorIndexOutOfRange \<and>
   (\<exists>e. LocalOptimizeBlock regs2 store_size_of (GetOffsets past_the_end) 0
           (past_the_end, Map.empty) = Inl e) \<and>
   GetOffsets register_128 2 = Some 128 \<and> in_tables many_regs 128 \<and>
   \<not> reg_of many_regs 128 < RegSet_bits \<and>
   visit many_regs store_size_of (GetOffsets register_128) (Inst 2 (Load 1 (IntegerTy 8)))
     (scan_init (blocks register_128)) = Inl BitsetPositionOutOfRange \<and>
   (\<exists>e. LocalOptimizeBlock many_regs store_size_of (GetOffsets register_128) 0
           (register_128, Map.empty) = Inl e) \<and>
   in_tables regs2 8"
proof -
  have a1: "\<forall>v off. GetOffsets subreg_block v = Some off \<longrightarrow> in_tables regs2 off"
    using subreg_offsets_in_tables by blast
  note a2 = regs2_registers
  have a3: "(0::nat) < length (blocks subreg_block)" by (simp add: subreg_block_def)
  have c1: "\<exists>fg'. LocalOptimizeBlock regs2 store_size_of (GetOffsets subreg_block) 0
             (subreg_block, Map.empty) = Inr fg'"
    using eliminator_defined_within_bounds [of "GetOffsets subreg_block" regs2 0 subreg_block
        store_size_of Map.empty] a1 a2 a3 by blast
  have c2: "\<exists>fg'. OptimizeFunction (\<lambda>f. f) regs2 store_size_of (subreg_block, Map.empty) = Inr fg'"
    using eliminator_defined_within_bounds [of _ regs2 _ subreg_block store_size_of Map.empty "\<lambda>f. f"]
      a1 a2 by blast
  note b1 = past_the_end_offsets
  have b2: "\<not> in_tables regs2 9" by (simp add: in_tables_def regs2_tables)
  have b3: "(0::nat) < length (blocks past_the_end)" by (simp add: past_the_end_def)
  have b4: "Inst 2 (Load 1 (IntegerTy 8)) \<in> set (insts (blocks past_the_end ! 0))"
    by (simp add: past_the_end_def)
  have c3: "visit regs2 store_size_of (GetOffsets past_the_end) (Inst 2 (Load 1 (IntegerTy 8)))
     (scan_init (blocks past_the_end)) = Inl VectorIndexOutOfRange"
    using eliminator_defined_within_bounds [of "GetOffsets past_the_end" regs2 0 past_the_end
        store_size_of Map.empty _ 2 9 "Load 1 (IntegerTy 8)" "scan_init (blocks past_the_end)"]
      b1 b2 by blast
  have c4: "\<exists>e. LocalOptimizeBlock regs2 store_size_of (GetOffsets past_the_end) 0
           (past_the_end, Map.empty) = Inl e"
    using eliminator_defined_within_bounds [of "GetOffsets past_the_end" regs2 0 past_the_end
        store_size_of Map.empty _ 2 9 "Load 1 (IntegerTy 8)"]
      b1 b2 b3 b4 by blast
  note d1 = register_128_offsets
  note d2 = many_regs_lookup(1)
  have d3: "\<not> reg_of many_regs 128 < RegSet_bits"
    by (simp add: many_regs_lookup RegSet_bits_def)
  have d4: "is_access (Load 1 (IntegerTy 8))" by simp
  have d5: "(0::nat) < length (blocks register_128)" by (simp add: register_128_def)
  have d6: "Inst 2 (Load 1 (IntegerTy 8)) \<in> set (insts (blocks register_128 ! 0))"
    by (simp add: register_128_def)
  have c5: "visit many_regs store_size_of (GetOffsets register_128) (Inst 2 (Load 1 (IntegerTy 8)))
     (scan_init (blocks register_128)) = Inl BitsetPositionOutOfRange"
    using eliminator_defined_within_bounds [of "GetOffsets register_128" many_regs 0 register_128
        store_size_of Map.empty _ 2 128 "Load 1 (IntegerTy 8)" "scan_init (blocks register_128)"]
      d1 d2 d3 d4 by blast
  have c6: "\<exists>e. LocalOptimizeBlock many_regs store_size_of (GetOffsets register_128) 0
           (register_128, Map.empty) = Inl e"
    using eliminator_defined_within_bounds [of "GetOffsets register_128" many_regs 0 register_128
        store_size_of Map.empty _ 2 128 "Load 1 (IntegerTy 8)"]
      d1 d2 d3 d4 d5 d6 by blast
  have "in_tables regs2 8 \<longleftrightarrow>
      unat (8 :: 32 word) < sum_list (map store_size_of [IntegerTy 64, IntegerTy 8])"
    using eliminator_defined_within_bounds [where sz = store_size_of
        and elements = "[IntegerTy 64, IntegerTy 8]" and off = 8]
    unfolding regs2_def by blast
  then have c7: "in_tables regs2 8" by simp
  show ?thesis using c1 c2 b1 b2 c3 c4 d1 d2 d3 c5 c6 c7 by blast
qed

lemma byte_copy_offsets:
  "GetOffsets byte_copy 1 = Some 0" "GetOffsets byte_copy 2 = Some 1"
  "GetOffsets byte_copy 3 = Some 8" "GetOffsets byte_copy 4 = Some 0"
  "GetOffsets byte_copy 5 = Some 1" "GetOffsets byte_copy 6 = Some 8"
  "GetOffsets byte_copy 7 = None"
  by (simp_all add: eval_offsets byte_copy_def)

lemma byte_copy_optimized_offsets:
  "GetOffsets byte_copy_optimized 1 = Some 0" "GetOffsets byte_copy_optimized 2 = Some 1"
  "GetOffsets byte_copy_optimized 3 = Some 8"
  by (simp_all add: eval_offsets byte_copy_optimized_def)

lemma byte_copy_result_for:
  assumes "m 1 = Some 0" "m 2 = Some 1" "m 3 = Some 8" "m 4 = Some 0" "m 5 = Some 1"
    "m 6 = Some 8" "m 7 = None"
  shows "LocalOptimizeBlock regs2 store_size_of m 0 (byte_copy, Map.empty) =
     Inr (byte_copy_optimized,
          Map.empty(0 \<mapsto> \<lparr>live_on_entry = {0}, killed_in_block = {1}\<rparr>))"
  using assms by (simp add: eval_scan regs2_tables byte_copy_def byte_copy_optimized_def)

lemma run_byte_copy_for:
  assumes "m 1 = Some 0" "m 2 = Some 1" "m 3 = Some 8"
  shows "fst (run_block store_size_of m (blocks byte_copy ! 0) (two_bytes, Map.empty)) 8 = 0x22"
    and "fst (run_block store_size_of m (blocks byte_copy_optimized ! 0) (two_bytes, Map.empty)) 8 = 0x11"
  using assms by (simp_all add: run_block_def byte_copy_def byte_copy_optimized_def two_bytes_def)

text \<open>
  Claim C1. Forwarding is keyed by the register number alone, not by the byte within
  the register. In \<open>byte_copy\<close> the loads 4 and 5 read bytes 0 and 1 of register 0
  with the same type; the eliminator replaces the uses of load 5 by load 4 and removes
  load 5. From a register state whose bytes 0 and 1 are \<open>0x11\<close> and \<open>0x22\<close>, the
  block as given stores \<open>0x22\<close> into register 1 (byte 8), and the block the
  eliminator returns stores \<open>0x11\<close> there: the rewriting changes the value stored
  to a register.
\<close>

theorem forwarding_between_bytes_of_a_register:
  "LocalOptimizeBlock regs2 store_size_of (GetOffsets byte_copy) 0 (byte_copy, Map.empty) =
     Inr (byte_copy_optimized, Map.empty(0 \<mapsto> \<lparr>live_on_entry = {0}, killed_in_block = {1}\<rparr>)) \<and>
   fst (run_block store_size_of (GetOffsets byte_copy) (blocks byte_copy ! 0)
          (two_bytes, Map.empty)) 8 = 0x22 \<and>
   fst (run_block store_size_of (GetOffsets byte_copy_optimized) (blocks byte_copy_optimized ! 0)
          (two_bytes, Map.empty)) 8 = 0x11"
proof -
  have "LocalOptimizeBlock regs2 store_size_of (GetOffsets byte_copy) 0 (byte_copy, Map.empty) =
     Inr (byte_copy_optimized, Map.empty(0 \<mapsto> \<lparr>live_on_entry = {0}, killed_in_block = {1}\<rparr>))"
    by (rule byte_copy_result_for) (rule byte_copy_offsets)+
  moreover have "fst (run_block store_size_of (GetOffsets byte_copy) (blocks byte_copy ! 0)
          (two_bytes, Map.empty)) 8 = 0x22"
    by (rule run_byte_copy_for) (rule byte_copy_offsets)+
  moreover have "fst (run_block store_size_of (GetOffsets byte_copy_optimized)
          (blocks byte_copy_optimized ! 0) (two_bytes, Map.empty)) 8 = 0x11"
    by (rule run_byte_copy_for) (rule byte_copy_optimized_offsets)+
  ultimately show ?thesis by simp
qed

section \<open>Properties of the pass driver\<close>

text \<open>
  Claim C4, as amended. The driver computes the offset map of the function as it is
  given, runs the eliminator on every block of it, and only then runs the generic
  pipeline, on the function the eliminator returned. The pipeline is only set up
  first: the block summaries the driver persists do not depend on it, and the
  function returned is the pipeline's result on what the driver returns with the
  identity for a pipeline. In the terms of the order the specification words, the
  driver is that order with nothing for a pipeline, followed by the pipeline.
\<close>

theorem pipeline_runs_last:
  "OptimizeFunction pm L sz (f, g) =
     on_result (\<lambda>fg'. (pm (fst fg'), snd fg'))
       (optimize_blocks L sz (GetOffsets f) [0 ..< length (blocks f)] (f, g))
   \<and> OptimizeFunction pm L sz (f, g) =
       on_result (\<lambda>fg'. (pm (fst fg'), snd fg')) (OptimizeFunction (\<lambda>f. f) L sz (f, g))
   \<and> on_result snd (OptimizeFunction pm L sz (f, g)) =
       on_result snd (OptimizeFunction (\<lambda>f. f) L sz (f, g))
   \<and> OptimizeFunction pm L sz (f, g) =
       on_result (\<lambda>fg'. (pm (fst fg'), snd fg'))
         (OptimizeFunction_pipeline_first (\<lambda>f. f) L sz (f, g))"
  by (cases "optimize_blocks L sz (GetOffsets f) [0 ..< length (blocks f)] (f, g)")
    (auto simp: OptimizeFunction_def OptimizeFunction_pipeline_first_def)

lemma load_and_return_offsets:
  "GetOffsets load_and_return 1 = Some 0" "GetOffsets load_and_return 2 = None"
  by (simp_all add: eval_offsets load_and_return_def)

lemma load_and_return_block_for:
  assumes "m 1 = Some 0" "m 2 = None"
  shows "LocalOptimizeBlock regs2 store_size_of m 0 (load_and_return, Map.empty) =
     Inr (load_and_return, Map.empty(0 \<mapsto> \<lparr>live_on_entry = {0}, killed_in_block = {}\<rparr>))"
  using assms by (simp add: eval_scan regs2_tables load_and_return_def)

lemma remove_unused_loads_load_and_return:
  "remove_unused_loads load_and_return =
     return_only"
  by (simp add: remove_unused_loads_def load_and_return_def return_only_def instructions_def
      is_load_def)

lemma return_only_block_for:
  assumes "m 2 = None"
  shows "LocalOptimizeBlock regs2 store_size_of m 0
       (return_only, Map.empty) =
     Inr (return_only,
          Map.empty(0 \<mapsto> \<lparr>live_on_entry = {}, killed_in_block = {}\<rparr>))"
  using assms by (simp add: eval_scan return_only_def)

lemma return_only_offsets:
  "GetOffsets return_only 2 = None"
  by (simp add: eval_offsets return_only_def)

text \<open>
  The order of the claim as stated (the pipeline before the offsets and the
  eliminator) gives another result. With the removal of unused loads for a pipeline,
  the driver on \<open>load_and_return\<close> records register 0 as live on entry of the
  block, because the eliminator sees the load; with the pipeline first the load is
  gone before the eliminator runs, and register 0 is not recorded.
\<close>

theorem eliminator_runs_before_the_pipeline:
  "OptimizeFunction remove_unused_loads regs2 store_size_of (load_and_return, Map.empty) =
     Inr (return_only,
          Map.empty(0 \<mapsto> \<lparr>live_on_entry = {0}, killed_in_block = {}\<rparr>)) \<and>
   OptimizeFunction_pipeline_first remove_unused_loads regs2 store_size_of (load_and_return, Map.empty) =
     Inr (return_only,
          Map.empty(0 \<mapsto> \<lparr>live_on_entry = {}, killed_in_block = {}\<rparr>)) \<and>
   OptimizeFunction remove_unused_loads regs2 store_size_of (load_and_return, Map.empty) \<noteq>
   OptimizeFunction_pipeline_first remove_unused_loads regs2 store_size_of (load_and_return, Map.empty)"
proof -
  have l: "length (blocks load_and_return) = 1" by (simp add: load_and_return_def)
  have l2: "length (blocks return_only) = 1" by (simp add: return_only_def)
  have a: "OptimizeFunction remove_unused_loads regs2 store_size_of (load_and_return, Map.empty) =
     Inr (return_only,
          Map.empty(0 \<mapsto> \<lparr>live_on_entry = {0}, killed_in_block = {}\<rparr>))"
    by (simp add: OptimizeFunction_def l remove_unused_loads_load_and_return
        load_and_return_block_for [of "GetOffsets load_and_return", OF load_and_return_offsets])
  have b: "OptimizeFunction_pipeline_first remove_unused_loads regs2 store_size_of
       (load_and_return, Map.empty) =
     Inr (return_only,
          Map.empty(0 \<mapsto> \<lparr>live_on_entry = {}, killed_in_block = {}\<rparr>))"
    by (simp add: OptimizeFunction_pipeline_first_def remove_unused_loads_load_and_return
        return_only_block_for [of "GetOffsets return_only", OF return_only_offsets] l2)
  have "(Map.empty(0 \<mapsto> \<lparr>live_on_entry = {0 :: nat}, killed_in_block = {} :: nat set\<rparr>)) (0 :: nat) \<noteq>
        (Map.empty(0 \<mapsto> \<lparr>live_on_entry = {}, killed_in_block = {}\<rparr>)) 0"
    by simp
  then have "Map.empty(0 \<mapsto> \<lparr>live_on_entry = {0 :: nat}, killed_in_block = {} :: nat set\<rparr>) \<noteq>
        Map.empty((0 :: nat) \<mapsto> \<lparr>live_on_entry = {}, killed_in_block = {}\<rparr>)"
    by metis
  then show ?thesis by (simp only: a b) simp
qed


end
